theory Spec2Isabelle
  imports Main
begin

section \<open>C++ integer types\<close>

text \<open>
  The header is generic over the integer types of C++. A type is a signedness and a
  conversion rank; a value of the type is the mathematical integer it denotes. The widths
  are those of the LP64 data model (\<open>char\<close> 8, \<open>short\<close> 16, \<open>int\<close> 32, \<open>long\<close> and
  \<open>long long\<close> 64 bits), where \<open>std::ptrdiff_t\<close> is \<open>long\<close>.
\<close>

datatype rank = char_rank | short_rank | int_rank | long_rank | long_long_rank

datatype int_type = Signed rank | Unsigned rank

fun is_signed :: "int_type \<Rightarrow> bool" where
  "is_signed (Signed r) = True"
| "is_signed (Unsigned r) = False"

fun rank_of :: "int_type \<Rightarrow> rank" where
  "rank_of (Signed r) = r"
| "rank_of (Unsigned r) = r"

fun rank_bits :: "rank \<Rightarrow> nat" where
  "rank_bits char_rank = 8"
| "rank_bits short_rank = 16"
| "rank_bits int_rank = 32"
| "rank_bits long_rank = 64"
| "rank_bits long_long_rank = 64"

fun rank_index :: "rank \<Rightarrow> nat" where
  "rank_index char_rank = 0"
| "rank_index short_rank = 1"
| "rank_index int_rank = 2"
| "rank_index long_rank = 3"
| "rank_index long_long_rank = 4"

definition bits :: "int_type \<Rightarrow> nat" where
  "bits T = rank_bits (rank_of T)"

definition min_of :: "int_type \<Rightarrow> int" where
  "min_of T = (if is_signed T then - (2 ^ (bits T - 1)) else 0)"

definition max_of :: "int_type \<Rightarrow> int" where
  "max_of T = (if is_signed T then 2 ^ (bits T - 1) - 1 else 2 ^ bits T - 1)"

definition in_range :: "int_type \<Rightarrow> int \<Rightarrow> bool" where
  "in_range T v = (min_of T \<le> v \<and> v \<le> max_of T)"

text \<open>
  Conversion of an integer to the type \<open>T\<close>: the value congruent to the source modulo
  \<open>2 ^ bits T\<close> that \<open>T\<close> can hold. This is what \<open>T(v)\<close>, a \<open>static_cast\<close> and an
  implicit conversion give: by definition since C++20, and on two's complement
  implementations before.
\<close>

definition convert :: "int_type \<Rightarrow> int \<Rightarrow> int" where
  "convert T v =
     (if is_signed T
      then (v + 2 ^ (bits T - 1)) mod 2 ^ bits T - 2 ^ (bits T - 1)
      else v mod 2 ^ bits T)"

text \<open>A typed value: an expression's type together with the integer it evaluates to.\<close>

datatype cpp_int = Val (type_of: int_type) (value_of: int)

definition well_typed :: "cpp_int \<Rightarrow> bool" where
  "well_typed x = in_range (type_of x) (value_of x)"

abbreviation "uint8_t \<equiv> Unsigned char_rank"
abbreviation "int8_t \<equiv> Signed char_rank"
abbreviation "int32_t \<equiv> Signed int_rank"
abbreviation "uint32_t \<equiv> Unsigned int_rank"
abbreviation "int64_t \<equiv> Signed long_rank"
abbreviation "uint64_t \<equiv> Unsigned long_rank"
abbreviation "ptrdiff_t \<equiv> Signed long_rank"

section \<open>sgn\<close>

text \<open>
  \<^verbatim>\<open>template <typename T, typename = std::enable_if_t<std::is_signed<T>::value>>
  int sgn(T val) { return (T{0} < val) - (val < T{0}); }\<close>

  Each comparison is a \<open>bool\<close>, promoted to \<open>int\<close> (0 or 1) by the subtraction. The
  comparisons are those of the values \<open>T\<close> denotes, so \<open>val\<close> is taken as a value of a
  linear order with a zero: the integer it denotes for a signed integer type.
\<close>

definition sgn_cpp :: "'a::{zero,linorder} \<Rightarrow> int" where
  "sgn_cpp val = of_bool (0 < val) - of_bool (val < 0)"

section \<open>as_signed and as_unsigned\<close>

fun make_signed_t :: "int_type \<Rightarrow> int_type" where
  "make_signed_t (Signed r) = Signed r"
| "make_signed_t (Unsigned r) = Signed r"

fun make_unsigned_t :: "int_type \<Rightarrow> int_type" where
  "make_unsigned_t (Signed r) = Unsigned r"
| "make_unsigned_t (Unsigned r) = Unsigned r"

text \<open>\<^verbatim>\<open>return std::make_signed_t<T>(t);\<close> and \<^verbatim>\<open>return std::make_unsigned_t<T>(t);\<close>\<close>

definition as_signed :: "cpp_int \<Rightarrow> cpp_int" where
  "as_signed t = Val (make_signed_t (type_of t)) (convert (make_signed_t (type_of t)) (value_of t))"

definition as_unsigned :: "cpp_int \<Rightarrow> cpp_int" where
  "as_unsigned t =
     Val (make_unsigned_t (type_of t)) (convert (make_unsigned_t (type_of t)) (value_of t))"

section \<open>Integer arithmetic\<close>

text \<open>
  Arithmetic either gives a value or fails: a failed \<open>BOOST_ASSERT\<close> (the assertions
  are compiled in unless \<open>NDEBUG\<close> is defined), or an operation whose behaviour the
  language leaves undefined (signed overflow, division by zero).
\<close>

datatype failure = assertion_failed | undefined_behaviour

definition and_then :: "failure + 'a \<Rightarrow> ('a \<Rightarrow> failure + 'b) \<Rightarrow> failure + 'b" where
  "and_then m f = (case m of Inl e \<Rightarrow> Inl e | Inr x \<Rightarrow> f x)"

text \<open>A conversion of a typed value, explicit (\<open>static_cast\<close>) or implicit.\<close>

definition cast :: "int_type \<Rightarrow> cpp_int \<Rightarrow> cpp_int" where
  "cast T x = Val T (convert T (value_of x))"

text \<open>
  Integral promotion: a type of rank below \<open>int\<close> becomes \<open>int\<close>, which holds all its
  values at these widths.
\<close>

definition promote :: "int_type \<Rightarrow> int_type" where
  "promote T = (if rank_index (rank_of T) < rank_index int_rank then Signed int_rank else T)"

text \<open>
  The usual arithmetic conversions: the common type of the operands of a binary operator,
  after promotion. Of a signed and an unsigned type the unsigned one wins when its rank is
  not below the signed one's; otherwise the signed one when it holds every value of the
  unsigned one, and else the unsigned type of the signed one's rank.
\<close>

definition usual_arithmetic_conversions :: "int_type \<Rightarrow> int_type \<Rightarrow> int_type" where
  "usual_arithmetic_conversions T U =
     (let T' = promote T; U' = promote U in
      if T' = U' then T'
      else if is_signed T' = is_signed U'
      then (if rank_index (rank_of T') < rank_index (rank_of U') then U' else T')
      else
        (let S = (if is_signed T' then T' else U');
             N = (if is_signed T' then U' else T')
         in if rank_index (rank_of S) \<le> rank_index (rank_of N) then N
            else if bits N < bits S then S
            else Unsigned (rank_of S)))"

text \<open>
  A binary operator: both operands are converted to the common type; a signed result
  that the type cannot hold is undefined, an unsigned one wraps around.
\<close>

definition arithmetic :: "(int \<Rightarrow> int \<Rightarrow> int) \<Rightarrow> cpp_int \<Rightarrow> cpp_int \<Rightarrow> failure + cpp_int" where
  "arithmetic f x y =
     (let R = usual_arithmetic_conversions (type_of x) (type_of y);
          r = f (convert R (value_of x)) (convert R (value_of y))
      in if is_signed R \<and> \<not> in_range R r then Inl undefined_behaviour
         else Inr (Val R (convert R r)))"

definition add :: "cpp_int \<Rightarrow> cpp_int \<Rightarrow> failure + cpp_int" where
  "add x y = arithmetic (\<lambda>a b. a + b) x y"

definition subtract :: "cpp_int \<Rightarrow> cpp_int \<Rightarrow> failure + cpp_int" where
  "subtract x y = arithmetic (\<lambda>a b. a - b) x y"

definition multiply :: "cpp_int \<Rightarrow> cpp_int \<Rightarrow> failure + cpp_int" where
  "multiply x y = arithmetic (\<lambda>a b. a * b) x y"

text \<open>Division truncates towards zero; the remainder is what the quotient leaves.\<close>

definition truncated_quotient :: "int \<Rightarrow> int \<Rightarrow> int" where
  "truncated_quotient a b = sgn a * sgn b * (\<bar>a\<bar> div \<bar>b\<bar>)"

definition truncated_remainder :: "int \<Rightarrow> int \<Rightarrow> int" where
  "truncated_remainder a b = a - b * truncated_quotient a b"

definition divide_op :: "cpp_int \<Rightarrow> cpp_int \<Rightarrow> failure + cpp_int" where
  "divide_op x y =
     (let R = usual_arithmetic_conversions (type_of x) (type_of y)
      in if convert R (value_of y) = 0 then Inl undefined_behaviour
         else arithmetic truncated_quotient x y)"

definition remainder :: "cpp_int \<Rightarrow> cpp_int \<Rightarrow> failure + cpp_int" where
  "remainder x y =
     (let R = usual_arithmetic_conversions (type_of x) (type_of y);
          a = convert R (value_of x);
          b = convert R (value_of y)
      in if b = 0 then Inl undefined_behaviour
         else if is_signed R \<and> \<not> in_range R (truncated_quotient a b) then Inl undefined_behaviour
         else arithmetic truncated_remainder x y)"

text \<open>Unary minus: the operand is promoted.\<close>

definition negate :: "cpp_int \<Rightarrow> failure + cpp_int" where
  "negate x =
     (let R = promote (type_of x);
          r = - convert R (value_of x)
      in if is_signed R \<and> \<not> in_range R r then Inl undefined_behaviour
         else Inr (Val R (convert R r)))"

text \<open>A comparison: the operands are compared in their common type.\<close>

definition compare :: "(int \<Rightarrow> int \<Rightarrow> bool) \<Rightarrow> cpp_int \<Rightarrow> cpp_int \<Rightarrow> bool" where
  "compare rel x y =
     (let R = usual_arithmetic_conversions (type_of x) (type_of y)
      in rel (convert R (value_of x)) (convert R (value_of y)))"

section \<open>Boost's irange\<close>

text \<open>
  \<open>boost::irange\<close> is not part of the header; this is Boost.Range's
  \<open>boost/range/irange.hpp\<close>. An iterator over \<open>Integer\<close> is either an
  \<open>integer_iterator\<close> holding \<open>m_value\<close>, or an \<open>integer_iterator_with_step\<close>
  holding \<open>m_first\<close> (an \<open>Integer\<close>), \<open>m_step\<close> and \<open>m_step_size\<close> (both
  \<open>std::ptrdiff_t\<close>). A range is a pair of iterators.
\<close>

datatype iterator =
    integer_iterator int_type int
  | integer_iterator_with_step int_type int int int

datatype iterator_range = iterator_range (m_Begin: iterator) (m_End: iterator)

text \<open>
  The constructor
  \<^verbatim>\<open>integer_iterator_with_step(value_type first, difference_type step, value_type step_size)\<close>
  converts its arguments to the parameter types and then to the members' types.
\<close>

definition make_iterator_with_step :: "int_type \<Rightarrow> cpp_int \<Rightarrow> cpp_int \<Rightarrow> cpp_int \<Rightarrow> iterator" where
  "make_iterator_with_step Integer first step step_size =
     integer_iterator_with_step Integer
       (value_of (cast Integer first))
       (value_of (cast ptrdiff_t step))
       (value_of (cast ptrdiff_t (cast Integer step_size)))"

text \<open>
  The iterators' \<open>equal\<close> (here \<open>equal_iterator\<close>) compares \<open>m_value\<close>, or
  \<open>m_step\<close>; \<open>dereference\<close> returns \<open>m_value\<close>, or
  \<open>m_first + (m_step * m_step_size)\<close> converted to \<open>Integer\<close>; \<open>increment\<close> is
  \<open>++m_value\<close>, or \<open>++m_step\<close>.
\<close>

fun equal_iterator :: "iterator \<Rightarrow> iterator \<Rightarrow> bool" where
  "equal_iterator (integer_iterator I v) (integer_iterator I' v') = (v = v')"
| "equal_iterator (integer_iterator_with_step I f s z) (integer_iterator_with_step I' f' s' z') = (s = s')"
| "equal_iterator (integer_iterator I v) (integer_iterator_with_step I' f' s' z') = False"
| "equal_iterator (integer_iterator_with_step I f s z) (integer_iterator I' v') = False"

fun dereference :: "iterator \<Rightarrow> failure + cpp_int" where
  "dereference (integer_iterator I v) = Inr (Val I v)"
| "dereference (integer_iterator_with_step I f s z) =
     and_then (multiply (Val ptrdiff_t s) (Val ptrdiff_t z)) (\<lambda>p.
     and_then (add (Val I f) p) (\<lambda>r.
     Inr (cast I r)))"

fun increment :: "iterator \<Rightarrow> failure + iterator" where
  "increment (integer_iterator I v) =
     and_then (add (Val I v) (Val int32_t 1)) (\<lambda>r.
     Inr (integer_iterator I (value_of (cast I r))))"
| "increment (integer_iterator_with_step I f s z) =
     and_then (add (Val ptrdiff_t s) (Val int32_t 1)) (\<lambda>r.
     Inr (integer_iterator_with_step I f (value_of (cast ptrdiff_t r)) z))"

text \<open>
  \<^verbatim>\<open>template<class Integer> irange(Integer first, Integer last)\<close>:
  \<open>BOOST_ASSERT(first <= last)\<close>, then the range from \<open>integer_iterator(first)\<close> to
  \<open>integer_iterator(last)\<close>.
\<close>

definition irange :: "int_type \<Rightarrow> cpp_int \<Rightarrow> cpp_int \<Rightarrow> failure + iterator_range" where
  "irange Integer first_arg last_arg =
     (let first = cast Integer first_arg;
          last = cast Integer last_arg
      in if \<not> compare (\<lambda>a b. a \<le> b) first last then Inl assertion_failed
         else Inr (iterator_range (integer_iterator Integer (value_of first))
                                  (integer_iterator Integer (value_of last))))"

text \<open>
  \<^verbatim>\<open>template<class Integer, class StepSize>
  irange(Integer first, Integer last, StepSize step_size)
  {
      BOOST_ASSERT( step_size != 0 );
      BOOST_ASSERT( (step_size > 0) ? (last >= first) : (last <= first) );
      const std::ptrdiff_t sz = static_cast<std::ptrdiff_t>(step_size >= 0 ? step_size : -step_size);
      const Integer l = step_size >= 0 ? last : first;
      const Integer f = step_size >= 0 ? first : last;
      const std::ptrdiff_t num_steps = (l - f) / sz + ((l - f) % sz ? 1 : 0);
      BOOST_ASSERT(num_steps >= 0);
      return strided_integer_range<Integer>(
          iterator_t(first, 0, step_size),
          iterator_t(first, num_steps, step_size));
  }\<close>
\<close>

definition irange_step :: "int_type \<Rightarrow> cpp_int \<Rightarrow> cpp_int \<Rightarrow> cpp_int \<Rightarrow> failure + iterator_range" where
  "irange_step Integer first_arg last_arg step_size =
     (let first = cast Integer first_arg;
          last = cast Integer last_arg;
          zero = Val int32_t 0
      in if \<not> compare (\<lambda>a b. a \<noteq> b) step_size zero then Inl assertion_failed
         else if \<not> (if compare (\<lambda>a b. b < a) step_size zero
                     then compare (\<lambda>a b. b \<le> a) last first
                     else compare (\<lambda>a b. a \<le> b) last first) then Inl assertion_failed
         else
           and_then (if compare (\<lambda>a b. b \<le> a) step_size zero
                     then Inr (cast (promote (type_of step_size)) step_size)
                     else negate step_size) (\<lambda>magnitude.
           let sz = cast ptrdiff_t magnitude;
               l = (if compare (\<lambda>a b. b \<le> a) step_size zero then last else first);
               f = (if compare (\<lambda>a b. b \<le> a) step_size zero then first else last)
           in
           and_then (subtract l f) (\<lambda>d.
           and_then (divide_op d sz) (\<lambda>q.
           and_then (remainder d sz) (\<lambda>m.
           and_then (add q (Val int32_t (if value_of m \<noteq> 0 then 1 else 0))) (\<lambda>n.
           let num_steps = cast ptrdiff_t n
           in if \<not> compare (\<lambda>a b. b \<le> a) num_steps zero then Inl assertion_failed
              else Inr (iterator_range
                          (make_iterator_with_step Integer first (Val int32_t 0) step_size)
                          (make_iterator_with_step Integer first num_steps step_size))))))))"

text \<open>
  A range-based \<open>for\<close> over a range copies its \<open>begin\<close> and \<open>end\<close> iterators and
  advances the copy until it equals \<open>end\<close>, dereferencing it at each step. The loop
  collects the values it sees; a run that never reaches \<open>end\<close> has the value \<open>None\<close>.
\<close>

partial_function (option) for_loop ::
  "iterator \<Rightarrow> iterator \<Rightarrow> cpp_int list \<Rightarrow> (failure + cpp_int list) option" where
  "for_loop it end_it seen =
     (if equal_iterator it end_it then Some (Inr seen)
      else (case dereference it of
              Inl e \<Rightarrow> Some (Inl e)
            | Inr x \<Rightarrow>
                (case increment it of
                   Inl e \<Rightarrow> Some (Inl e)
                 | Inr it' \<Rightarrow> for_loop it' end_it (seen @ [x]))))"

declare for_loop.simps [code]

text \<open>The values a range-based \<open>for\<close> over the range \<open>r\<close> sees.\<close>

definition range_for :: "iterator_range \<Rightarrow> (failure + cpp_int list) option" where
  "range_for r = (let it = m_Begin r; end_it = m_End r in for_loop it end_it [])"

subsection \<open>Iterating a range held in a variable\<close>

text \<open>
  To iterate the same range more than once the program holds it in a variable. The
  iterators are then objects in memory: a store is the list of the iterator objects
  allocated so far, an address an index into it. A variable of type \<open>iterator_range\<close>
  holds its members \<open>m_Begin\<close> and \<open>m_End\<close> at two addresses.
\<close>

type_synonym store = "iterator list"

datatype range_variable = range_variable (begin_at: nat) (end_at: nat)

text \<open>\<^verbatim>\<open>auto r = range(...);\<close> stores the two members of the range returned.\<close>

definition declare_range :: "store \<Rightarrow> iterator_range \<Rightarrow> store \<times> range_variable" where
  "declare_range s r =
     (s @ [m_Begin r, m_End r], range_variable (length s) (Suc (length s)))"

text \<open>A new iterator object, initialised with a copy of \<open>v\<close>; its address is returned.\<close>

definition new_object :: "store \<Rightarrow> iterator \<Rightarrow> store \<times> nat" where
  "new_object s v = (s @ [v], length s)"

text \<open>
  The loop \<^verbatim>\<open>for ( ; __begin != __end; ++__begin) { x = *__begin; ... }\<close> on the iterator
  objects at the addresses \<open>c\<close> and \<open>d\<close>: \<open>++__begin\<close> overwrites the object at \<open>c\<close>. The
  loop returns the values it has seen and the store it leaves. An address outside the
  store is a dangling access.
\<close>

partial_function (option) for_loop_at ::
  "store \<Rightarrow> nat \<Rightarrow> nat \<Rightarrow> cpp_int list \<Rightarrow> (failure + cpp_int list \<times> store) option" where
  "for_loop_at s c d seen =
     (if \<not> (c < length s \<and> d < length s) then Some (Inl undefined_behaviour)
      else if equal_iterator (s ! c) (s ! d) then Some (Inr (seen, s))
      else (case dereference (s ! c) of
              Inl e \<Rightarrow> Some (Inl e)
            | Inr x \<Rightarrow>
                (case increment (s ! c) of
                   Inl e \<Rightarrow> Some (Inl e)
                 | Inr it' \<Rightarrow> for_loop_at (s[c := it']) c d (seen @ [x]))))"

declare for_loop_at.simps [code]

text \<open>The values of an outcome of the loop, without the store.\<close>

fun values_seen :: "failure + cpp_int list \<times> store \<Rightarrow> failure + cpp_int list" where
  "values_seen (Inl e) = Inl e"
| "values_seen (Inr (xs, s)) = Inr xs"

text \<open>
  A range-based \<open>for\<close> over the variable \<open>r\<close>:
  \<^verbatim>\<open>auto __begin = r.begin(); auto __end = r.end();\<close> and then the loop.
  \<open>iterator_range::begin() const\<close> and \<open>end() const\<close> return the members by value, so
  \<open>__begin\<close> and \<open>__end\<close> are new objects that hold copies.
\<close>

definition range_for_at :: "store \<Rightarrow> range_variable \<Rightarrow> (failure + cpp_int list \<times> store) option" where
  "range_for_at s r =
     (if \<not> (begin_at r < length s \<and> end_at r < length s) then Some (Inl undefined_behaviour)
      else
        (case new_object s (s ! begin_at r) of
           (s1, c) \<Rightarrow>
             (case new_object s1 (s1 ! end_at r) of
                (s2, d) \<Rightarrow> for_loop_at s2 c d [])))"

section \<open>range\<close>

text \<open>
  The header's overloads of \<open>range\<close> are named by their number of arguments here:
  \<open>range3\<close> is \<open>range(start, end, step)\<close>, \<open>range2\<close> is \<open>range(start, end)\<close> and
  \<open>range1\<close> is \<open>range(end)\<close>.

  The type of \<open>true ? start : end\<close>, decayed: the operands' type when they have the
  same type, and the type the usual arithmetic conversions give otherwise.
\<close>

definition conditional_type :: "int_type \<Rightarrow> int_type \<Rightarrow> int_type" where
  "conditional_type T U = (if T = U then T else usual_arithmetic_conversions T U)"

text \<open>
  \<^verbatim>\<open>template <typename T, typename U, typename V = int>
  inline auto range(T start, U end, V step = 1)
  {
      using D = std::decay_t<decltype(true ? start : end)>;
      return boost::irange<D>(start, end, step);
  }\<close>
\<close>

definition range3 :: "cpp_int \<Rightarrow> cpp_int \<Rightarrow> cpp_int \<Rightarrow> failure + iterator_range" where
  "range3 start stop step =
     (let D = conditional_type (type_of start) (type_of stop)
      in irange_step D start stop step)"

text \<open>The same with the default argument \<open>step = 1\<close>, an \<open>int\<close>.\<close>

definition range2 :: "cpp_int \<Rightarrow> cpp_int \<Rightarrow> failure + iterator_range" where
  "range2 start stop = range3 start stop (Val int32_t 1)"

text \<open>
  \<^verbatim>\<open>template <typename T>
  inline auto range(T end) { return boost::irange(T{0}, end); }\<close>
\<close>

definition range1 :: "cpp_int \<Rightarrow> failure + iterator_range" where
  "range1 stop = irange (type_of stop) (Val (type_of stop) 0) stop"

text \<open>
  What iterating the result of a call of \<open>range\<close> produces: the failure of the call, or
  the outcome of the loop over the range it returned.
\<close>

definition produced :: "failure + iterator_range \<Rightarrow> (failure + cpp_int list) option" where
  "produced res = (case res of Inl e \<Rightarrow> Some (Inl e) | Inr r \<Rightarrow> range_for r)"

section \<open>remove_if\<close>

text \<open>
  A container is the list of its elements in iteration order; an iterator is a position
  in it, \<open>begin\<close> the position 0 and \<open>end\<close> the length. \<open>erase\<close> removes the element
  at the position and returns the iterator following it, which is the same position in
  the shorter container; the other positions keep their elements' order.
\<close>

definition begin_of :: "'a list \<Rightarrow> nat" where
  "begin_of container = 0"

definition end_of :: "'a list \<Rightarrow> nat" where
  "end_of container = length container"

definition erase :: "'a list \<Rightarrow> nat \<Rightarrow> 'a list \<times> nat" where
  "erase container it = (take it container @ drop (Suc it) container, it)"

text \<open>
  The loop of \<open>remove_if\<close>, with the container and the iterator as its state. The last
  argument records the elements \<open>pred\<close> has been called on, in the order of the calls.
  The loop condition is the source's \<open>it != end(container)\<close>, so a run that never
  reaches \<open>end\<close> has the value \<open>None\<close>.
\<close>

partial_function (option) remove_if_loop ::
  "('a \<Rightarrow> bool) \<Rightarrow> 'a list \<Rightarrow> nat \<Rightarrow> 'a list \<Rightarrow> ('a list \<times> 'a list) option" where
  "remove_if_loop pred container it visited =
     (if it \<noteq> end_of container
      then (if pred (container ! it)
            then (case erase container it of
                    (container', it') \<Rightarrow>
                      remove_if_loop pred container' it' (visited @ [container ! it]))
            else remove_if_loop pred container (Suc it) (visited @ [container ! it]))
      else Some (container, visited))"

declare remove_if_loop.simps [code]

definition remove_if :: "'a list \<Rightarrow> ('a \<Rightarrow> bool) \<Rightarrow> ('a list \<times> 'a list) option" where
  "remove_if container pred = remove_if_loop pred container (begin_of container) []"

section \<open>boost::tuple as a std tuple\<close>

text \<open>
  Boost's tuple is a chain of \<open>cons<HT, TT>\<close> cells ended by \<open>null_type\<close>. The same
  datatype serves for a tuple type (a chain of element types) and for a tuple value (a
  chain of elements).
\<close>

datatype 'a cons = null_type | cons (head: 'a) (tail: "'a cons")

text \<open>The elements of a chain in order; its arity is the length of this list.\<close>

fun elements :: "'a cons \<Rightarrow> 'a list" where
  "elements null_type = []"
| "elements (cons h t) = h # elements t"

text \<open>
  \<open>boost::tuples::length<T>::value\<close>: 0 for \<open>null_type\<close>, and one more than the
  length of the tail for a \<open>cons\<close>.
\<close>

fun tuples_length :: "'a cons \<Rightarrow> int" where
  "tuples_length null_type = 0"
| "tuples_length (cons h t) = 1 + tuples_length t"

text \<open>
  \<open>boost::tuples::element<N, T>::type\<close>: the head's type at 0, the tail's element
  \<open>N - 1\<close> otherwise; no type past the end of the chain.
\<close>

fun tuples_element :: "nat \<Rightarrow> 'a cons \<Rightarrow> 'a option" where
  "tuples_element N null_type = None"
| "tuples_element 0 (cons h t) = Some h"
| "tuples_element (Suc N) (cons h t) = tuples_element N t"

text \<open>
  The header specialises \<open>std::tuple_size\<close> and \<open>std::tuple_element\<close> for
  \<open>cons<T, Tail>\<close> only: for \<open>null_type\<close> there is no specialisation.
\<close>

fun tuple_size :: "'a cons \<Rightarrow> int option" where
  "tuple_size (cons T Tail) = Some (tuples_length (cons T Tail))"
| "tuple_size null_type = None"

fun tuple_element :: "nat \<Rightarrow> 'a cons \<Rightarrow> 'a option" where
  "tuple_element N (cons T Tail) = tuples_element N (cons T Tail)"
| "tuple_element N null_type = None"

subsection \<open>References and the four overloads of get\<close>

text \<open>
  An expression that denotes an object has a value category and a constness; a function
  that returns \<open>T&\<close> yields an lvalue and one that returns \<open>T&&\<close> an rvalue. A program
  that does not compile has a \<open>compile_error\<close> for its value.
\<close>

datatype value_category = lvalue | rvalue

datatype compile_error =
  template_argument_deduction_failed | no_such_element | invalid_reference_binding

record 'a reference =
  category :: value_category
  is_const :: bool
  referent :: 'a

text \<open>
  \<open>std::forward<T>(x)\<close> casts \<open>x\<close> to \<open>T&&\<close>: an rvalue when \<open>T\<close> is not a
  reference, an lvalue when \<open>T\<close> is an lvalue reference. Its parameter has the type
  \<open>std::remove_reference_t<T>&\<close>, from which \<open>T\<close> cannot be deduced: a call that
  does not name \<open>T\<close> has no viable overload.
\<close>

datatype forward_type = object_type | lvalue_reference_type

fun forward :: "forward_type option \<Rightarrow> 'a reference \<Rightarrow> compile_error + 'a reference" where
  "forward None x = Inl template_argument_deduction_failed"
| "forward (Some object_type) x = Inr (x\<lparr>category := rvalue\<rparr>)"
| "forward (Some lvalue_reference_type) x = Inr (x\<lparr>category := lvalue\<rparr>)"

text \<open>
  \<open>boost::get<N>\<close> has the overloads \<open>get(cons<HT, TT>&)\<close>, which returns a
  reference to the element, and \<open>get(const cons<HT, TT>&)\<close>, which returns a reference
  to const. A non-const lvalue takes the first; a const lvalue and every rvalue bind to
  the second. Both return an lvalue. An index past the end has no element type.
\<close>

definition boost_get :: "nat \<Rightarrow> 'a cons reference \<Rightarrow> compile_error + 'a reference" where
  "boost_get N c =
     (case tuples_element N (referent c) of
        None \<Rightarrow> Inl no_such_element
      | Some e \<Rightarrow>
          Inr \<lparr>category = lvalue,
               is_const = (is_const c \<or> category c = rvalue),
               referent = e\<rparr>)"

text \<open>
  Returning the expression \<open>x\<close> from a function whose return type is a reference of
  the given category and constness: an rvalue reference does not bind to an lvalue, an
  lvalue reference to non-const does not bind to an rvalue, and constness is not dropped.
\<close>

definition return_as :: "value_category \<Rightarrow> bool \<Rightarrow> 'a reference \<Rightarrow> compile_error + 'a reference" where
  "return_as cat const x =
     (if is_const x \<and> \<not> const then Inl invalid_reference_binding
      else if cat = rvalue \<and> category x = lvalue then Inl invalid_reference_binding
      else if cat = lvalue \<and> category x = rvalue \<and> \<not> const then Inl invalid_reference_binding
      else Inr \<lparr>category = cat, is_const = const, referent = referent x\<rparr>)"

text \<open>
  The four overloads of \<open>std::get<N>\<close>. Inside each body the parameter \<open>t\<close> is a
  named variable, hence an lvalue, const in the two const overloads.

  \<^verbatim>\<open>type&& get(cons<T, Tail>&& t) { return boost::get<N>(std::forward(t)); }\<close>
\<close>

definition get_rvalue :: "nat \<Rightarrow> 'a cons \<Rightarrow> compile_error + 'a reference" where
  "get_rvalue N t =
     (case forward None \<lparr>category = lvalue, is_const = False, referent = t\<rparr> of
        Inl e \<Rightarrow> Inl e
      | Inr a \<Rightarrow>
          (case boost_get N a of
             Inl e \<Rightarrow> Inl e
           | Inr r \<Rightarrow> return_as rvalue False r))"

text \<open>\<^verbatim>\<open>type& get(cons<T, Tail>& t) { return boost::get<N>(t); }\<close>\<close>

definition get_lvalue :: "nat \<Rightarrow> 'a cons \<Rightarrow> compile_error + 'a reference" where
  "get_lvalue N t =
     (case boost_get N \<lparr>category = lvalue, is_const = False, referent = t\<rparr> of
        Inl e \<Rightarrow> Inl e
      | Inr r \<Rightarrow> return_as lvalue False r)"

text \<open>\<^verbatim>\<open>const type&& get(const cons<T, Tail>&& t) { return boost::get<N>(std::forward(t)); }\<close>\<close>

definition get_const_rvalue :: "nat \<Rightarrow> 'a cons \<Rightarrow> compile_error + 'a reference" where
  "get_const_rvalue N t =
     (case forward None \<lparr>category = lvalue, is_const = True, referent = t\<rparr> of
        Inl e \<Rightarrow> Inl e
      | Inr a \<Rightarrow>
          (case boost_get N a of
             Inl e \<Rightarrow> Inl e
           | Inr r \<Rightarrow> return_as rvalue True r))"

text \<open>\<^verbatim>\<open>const type& get(const cons<T, Tail>& t) { return boost::get<N>(t); }\<close>\<close>

definition get_const_lvalue :: "nat \<Rightarrow> 'a cons \<Rightarrow> compile_error + 'a reference" where
  "get_const_lvalue N t =
     (case boost_get N \<lparr>category = lvalue, is_const = True, referent = t\<rparr> of
        Inl e \<Rightarrow> Inl e
      | Inr r \<Rightarrow> return_as lvalue True r)"

section \<open>Conversions and common types\<close>

lemma bits_pos: "0 < bits T"
  by (cases T; rename_tac r; case_tac r) (simp_all add: bits_def)

lemmas type_defs = usual_arithmetic_conversions_def promote_def Let_def
lemmas range_defs = in_range_def min_of_def max_of_def bits_def

lemma uac_in_range_left:
  "in_range A v \<Longrightarrow> is_signed (usual_arithmetic_conversions A B) \<or> 0 \<le> v \<Longrightarrow>
   in_range (usual_arithmetic_conversions A B) v"
  by (cases A; cases B; rename_tac r1 r2; case_tac r1; case_tac r2)
     (simp_all add: type_defs range_defs)

lemma uac_in_range_right:
  "in_range B v \<Longrightarrow> is_signed (usual_arithmetic_conversions A B) \<or> 0 \<le> v \<Longrightarrow>
   in_range (usual_arithmetic_conversions A B) v"
  by (cases A; cases B; rename_tac r1 r2; case_tac r1; case_tac r2)
     (simp_all add: type_defs range_defs)

lemma uac_same: "usual_arithmetic_conversions T T = promote T"
  by (simp add: usual_arithmetic_conversions_def Let_def)

lemma uac_int_signed: "\<not> is_signed (usual_arithmetic_conversions T int32_t) \<Longrightarrow> \<not> is_signed T"
  by (cases T; rename_tac r; case_tac r) (simp_all add: type_defs bits_def)

lemma in_range_promote: "in_range T v \<Longrightarrow> in_range (promote T) v"
  by (cases T; rename_tac r; case_tac r) (simp_all add: type_defs range_defs)

lemma promote_unsigned: "\<not> is_signed (promote T) \<Longrightarrow> promote T = T"
  by (cases T; rename_tac r; case_tac r) (simp_all add: type_defs bits_def)

lemma convert_in_range: "in_range T (convert T v)"
proof -
  have p: "(2::int) ^ bits T = 2 * 2 ^ (bits T - 1)"
    using bits_pos [of T] by (cases "bits T") simp_all
  have "0 \<le> (v + 2 ^ (bits T - 1)) mod 2 ^ bits T" "(v + 2 ^ (bits T - 1)) mod 2 ^ bits T < 2 ^ bits T"
       "0 \<le> v mod 2 ^ bits T" "v mod 2 ^ bits T < 2 ^ bits T"
    by simp_all
  then show ?thesis
    unfolding in_range_def convert_def min_of_def max_of_def using p by auto
qed

lemma convert_id: "in_range T v \<Longrightarrow> convert T v = v"
proof -
  assume a: "in_range T v"
  have p: "(2::int) ^ bits T = 2 * 2 ^ (bits T - 1)"
    using bits_pos [of T] by (cases "bits T") simp_all
  show ?thesis
  proof (cases "is_signed T")
    case True
    with a have "0 \<le> v + 2 ^ (bits T - 1)" "v + 2 ^ (bits T - 1) < 2 ^ bits T"
      using p by (auto simp: in_range_def min_of_def max_of_def)
    then have "(v + 2 ^ (bits T - 1)) mod 2 ^ bits T = v + 2 ^ (bits T - 1)"
      by (rule mod_pos_pos_trivial)
    with True show ?thesis by (simp add: convert_def)
  next
    case False
    with a have "0 \<le> v" "v < 2 ^ bits T"
      by (auto simp: in_range_def min_of_def max_of_def)
    then have "v mod 2 ^ bits T = v" by (rule mod_pos_pos_trivial)
    with False show ?thesis by (simp add: convert_def)
  qed
qed

lemma convert_mod: "convert T v mod 2 ^ bits T = v mod 2 ^ bits T"
proof -
  have p: "(2::int) ^ bits T = 2 * 2 ^ (bits T - 1)"
    using bits_pos [of T] by (cases "bits T") simp_all
  show ?thesis
  proof (cases "is_signed T")
    case True
    have "((v + 2 ^ (bits T - 1)) mod 2 ^ bits T - 2 ^ (bits T - 1)) mod 2 ^ bits T
        = ((v + 2 ^ (bits T - 1)) - 2 ^ (bits T - 1)) mod 2 ^ bits T"
      by (rule mod_diff_left_eq)
    with True show ?thesis by (simp add: convert_def)
  next
    case False
    then show ?thesis by (simp add: convert_def)
  qed
qed

lemma convert_cong: "v mod 2 ^ bits T = w mod 2 ^ bits T \<Longrightarrow> convert T v = convert T w"
proof -
  assume a: "v mod 2 ^ bits T = w mod 2 ^ bits T"
  have "(v + 2 ^ (bits T - 1)) mod 2 ^ bits T = (v mod 2 ^ bits T + 2 ^ (bits T - 1)) mod 2 ^ bits T"
    by (simp add: mod_add_left_eq)
  also have "\<dots> = (w + 2 ^ (bits T - 1)) mod 2 ^ bits T"
    by (simp add: a mod_add_left_eq)
  finally show ?thesis using a by (simp add: convert_def)
qed

lemma convert_eqI:
  "in_range T w \<Longrightarrow> v mod 2 ^ bits T = w mod 2 ^ bits T \<Longrightarrow> convert T v = w"
  using convert_cong [of v T w] convert_id [of T w] by simp


lemma convert_mod_le:
  assumes "n \<le> bits T"
  shows "convert T v mod 2 ^ n = v mod 2 ^ n"
proof -
  have d: "(2::int) ^ n dvd 2 ^ bits T" using assms by (simp add: le_imp_power_dvd)
  have "convert T v mod 2 ^ n = (convert T v mod 2 ^ bits T) mod 2 ^ n"
    using d by (simp add: mod_mod_cancel)
  also have "\<dots> = (v mod 2 ^ bits T) mod 2 ^ n" by (simp add: convert_mod)
  also have "\<dots> = v mod 2 ^ n" using d by (simp add: mod_mod_cancel)
  finally show ?thesis .
qed

lemma abs_convert_le:
  assumes "0 \<le> v"
  shows "\<bar>convert T v\<bar> \<le> v"
proof (cases "in_range T v")
  case True
  then show ?thesis using assms by (simp add: convert_id)
next
  case False
  have p: "(2::int) ^ bits T = 2 * 2 ^ (bits T - 1)"
    using bits_pos [of T] by (cases "bits T") simp_all
  have r: "in_range T (convert T v)" by (rule convert_in_range)
  show ?thesis
  proof (cases "is_signed T")
    case True
    with False assms have "2 ^ (bits T - 1) \<le> v"
      by (auto simp: in_range_def min_of_def max_of_def)
    moreover from r True have "\<bar>convert T v\<bar> \<le> 2 ^ (bits T - 1)"
      by (auto simp: in_range_def min_of_def max_of_def)
    ultimately show ?thesis by linarith
  next
    case False
    then have "convert T v = v mod 2 ^ bits T" by (simp add: convert_def)
    moreover have "0 \<le> v mod 2 ^ bits T" by simp
    moreover have "v mod 2 ^ bits T \<le> v" using assms by (rule zmod_le_nonneg_dividend)
    ultimately show ?thesis by simp
  qed
qed

lemma arithmetic_exact:
  assumes "R = usual_arithmetic_conversions (type_of x) (type_of y)"
    and "in_range R (value_of x)" and "in_range R (value_of y)"
    and "in_range R (f (value_of x) (value_of y))"
  shows "arithmetic f x y = Inr (Val R (f (value_of x) (value_of y)))"
  using assms by (simp add: arithmetic_def Let_def convert_id)

lemma compare_exact:
  assumes "R = usual_arithmetic_conversions (type_of x) (type_of y)"
    and "in_range R (value_of x)" and "in_range R (value_of y)"
  shows "compare rel x y = rel (value_of x) (value_of y)"
  using assms by (simp add: compare_def Let_def convert_id)

lemma compare_zero:
  assumes "in_range V v"
  shows "compare rel (Val V v) (Val int32_t 0) = rel v 0"
proof -
  let ?R = "usual_arithmetic_conversions V int32_t"
  have s: "is_signed ?R \<or> 0 \<le> v"
    using uac_int_signed [of V] assms by (cases V) (auto simp: in_range_def min_of_def)
  have "in_range ?R v" using assms s by (rule uac_in_range_left)
  moreover have "in_range ?R 0"
    by (rule uac_in_range_right) (simp_all add: range_defs)
  ultimately show ?thesis by (simp add: compare_exact)
qed

lemma compare_same_type:
  assumes "in_range D a" "in_range D b"
  shows "compare rel (Val D a) (Val D b) = rel a b"
  using assms by (simp add: compare_exact uac_same in_range_promote)

lemma truncated_quotient_nonneg:
  "0 \<le> a \<Longrightarrow> 0 < b \<Longrightarrow> truncated_quotient a b = a div b"
  by (cases "a = 0") (simp_all add: truncated_quotient_def)

lemma truncated_remainder_nonneg:
  "0 \<le> a \<Longrightarrow> 0 < b \<Longrightarrow> truncated_remainder a b = a mod b"
  by (simp add: truncated_remainder_def truncated_quotient_nonneg minus_mult_div_eq_mod)

text \<open>The common type of a promoted type and ptrdiff_t has 64 bits.\<close>

lemma uac_ptrdiff_in_range:
  "0 \<le> v \<Longrightarrow> v \<le> max_of ptrdiff_t \<Longrightarrow>
   in_range (usual_arithmetic_conversions (promote D) ptrdiff_t) v"
  by (cases D; rename_tac r; case_tac r) (simp_all add: type_defs range_defs)

lemma uac_ptrdiff_int:
  "usual_arithmetic_conversions (usual_arithmetic_conversions (promote D) ptrdiff_t) int32_t =
   usual_arithmetic_conversions (promote D) ptrdiff_t"
  by (cases D; rename_tac r; case_tac r) (simp_all add: type_defs bits_def)


section \<open>irange with a positive step\<close>

lemma div_le_self_int:
  fixes d st :: int
  assumes "0 \<le> d" "0 < st"
  shows "d div st \<le> d"
  using zdiv_mono2 [of d 1 st] assms by simp

lemma min_of_nonpos: "min_of T \<le> 0"
  by (simp add: min_of_def)

lemma steps_count:
  fixes d st :: int
  assumes "0 \<le> d" "0 < st"
  defines "n \<equiv> d div st + (if d mod st \<noteq> 0 then 1 else 0)"
  shows "0 \<le> n" and "n \<le> d" and "(k < n) = (k * st < d)"
proof -
  have dm: "d = st * (d div st) + d mod st" by simp
  have q0: "0 \<le> d div st" using assms by (simp add: pos_imp_zdiv_nonneg_iff)
  have r0: "0 \<le> d mod st" "d mod st < st" using assms by simp_all
  show "0 \<le> n" using q0 by (simp add: n_def)
  show "n \<le> d"
  proof (cases "d mod st = 0")
    case True
    have "d div st \<le> d" using assms by (simp add: div_le_self_int)
    with True show ?thesis by (simp add: n_def)
  next
    case False
    with r0 have "1 \<le> d mod st" by simp
    moreover have "d div st \<le> st * (d div st)" using q0 assms
      by (simp add: mult_le_cancel_right1)
    ultimately have "d div st + 1 \<le> st * (d div st) + d mod st" by linarith
    with False dm show ?thesis by (simp add: n_def)
  qed
  show "(k < n) = (k * st < d)"
  proof (cases "d mod st = 0")
    case True
    then have "d = (d div st) * st" using dm by (simp add: mult.commute)
    then have "(k * st < d) = (k * st < (d div st) * st)" by simp
    also have "\<dots> = (k < d div st)" using assms by (simp add: mult_less_cancel_right)
    finally show ?thesis using True by (simp add: n_def)
  next
    case False
    with r0 have r1: "0 < d mod st" by simp
    have "(k * st < d) = (k \<le> d div st)"
    proof
      assume a: "k * st < d"
      show "k \<le> d div st"
      proof (rule ccontr)
        assume "\<not> k \<le> d div st"
        then have "d div st + 1 \<le> k" by simp
        then have "(d div st + 1) * st \<le> k * st" using assms by (simp add: mult_le_cancel_right)
        then have "st * (d div st) + st \<le> k * st" by (simp add: algebra_simps)
        with dm r0 a show False by linarith
      qed
    next
      assume "k \<le> d div st"
      then have "k * st \<le> (d div st) * st" using assms by (simp add: mult_le_cancel_right)
      then have "k * st \<le> st * (d div st)" by (simp add: mult.commute)
      with dm r1 show "k * st < d" by linarith
    qed
    with False show ?thesis by (auto simp: n_def)
  qed
qed

lemma irange_step_positive:
  assumes V: "in_range V st" "0 < st" "st \<le> max_of ptrdiff_t"
    and s: "s = convert D (value_of first_arg)"
    and e: "e = convert D (value_of last_arg)"
    and le: "s \<le> e"
    and span: "e - s \<le> max_of ptrdiff_t"
    and span': "is_signed (promote D) \<Longrightarrow> e - s \<le> max_of (promote D)"
    and n: "n = (e - s) div st + (if (e - s) mod st \<noteq> 0 then 1 else 0)"
    and ms: "ms = convert ptrdiff_t (convert D st)"
  shows "irange_step D first_arg last_arg (Val V st) =
           Inr (iterator_range (integer_iterator_with_step D s 0 ms)
                               (integer_iterator_with_step D s n ms))"
proof -
  let ?P = "promote D"
  let ?R = "usual_arithmetic_conversions ?P ptrdiff_t"
  let ?zero = "Val int32_t 0"
  let ?step = "Val V st"
  have rs: "in_range D s" and re: "in_range D e"
    by (simp_all add: s e convert_in_range)
  have first: "cast D first_arg = Val D s" and last: "cast D last_arg = Val D e"
    by (simp_all add: cast_def s e)
  have c1: "compare (\<lambda>a b. a \<noteq> b) ?step ?zero" "compare (\<lambda>a b. b < a) ?step ?zero"
    "compare (\<lambda>a b. b \<le> a) ?step ?zero"
    using V by (simp_all add: compare_zero)
  have c4: "compare (\<lambda>a b. b \<le> a) (Val D e) (Val D s)"
    using rs re le by (simp add: compare_same_type)
  have pt: "in_range ptrdiff_t st" using V by (simp add: range_defs)
  have m: "cast (promote V) ?step = Val (promote V) st"
    using V by (simp add: cast_def convert_id in_range_promote)
  have sz: "cast ptrdiff_t (Val (promote V) st) = Val ptrdiff_t st"
    using pt by (simp add: cast_def convert_id)
  have d0: "0 \<le> e - s" using le by simp
  have dP: "in_range ?P (e - s)"
  proof (cases "is_signed ?P")
    case True
    with span' d0 min_of_nonpos [of ?P] show ?thesis by (simp add: in_range_def)
  next
    case False
    then have "?P = D" by (rule promote_unsigned)
    moreover from False this have "0 \<le> s" using rs by (simp add: in_range_def min_of_def)
    ultimately show ?thesis using re d0 False by (simp add: in_range_def min_of_def)
  qed
  have d: "subtract (Val D e) (Val D s) = Inr (Val ?P (e - s))"
    unfolding subtract_def
    using rs re dP by (subst arithmetic_exact [where R = "?P"]) (simp_all add: uac_same in_range_promote)
  have Rd: "in_range ?R (e - s)" and Rst: "in_range ?R st"
    using d0 span V by (simp_all add: uac_ptrdiff_in_range)
  have q0: "0 \<le> (e - s) div st" using d0 V by (simp add: pos_imp_zdiv_nonneg_iff)
  have qle: "(e - s) div st \<le> e - s" using d0 V by (simp add: div_le_self_int)
  have Rq: "in_range ?R ((e - s) div st)"
    using q0 qle span by (intro uac_ptrdiff_in_range) simp_all
  have q: "divide_op (Val ?P (e - s)) (Val ptrdiff_t st) = Inr (Val ?R ((e - s) div st))"
    unfolding divide_op_def Let_def
    using Rd Rst Rq V d0
    by (simp add: convert_id arithmetic_exact [where R = "?R"] truncated_quotient_nonneg)
  have r0: "0 \<le> (e - s) mod st" "(e - s) mod st < st" using V by simp_all
  have "(e - s) mod st \<le> max_of ptrdiff_t" using r0 V(3) by linarith
  then have Rr: "in_range ?R ((e - s) mod st)"
    using r0 by (intro uac_ptrdiff_in_range) simp_all
  have r: "remainder (Val ?P (e - s)) (Val ptrdiff_t st) = Inr (Val ?R ((e - s) mod st))"
    unfolding remainder_def Let_def
    using Rd Rst Rq Rr V d0
    by (simp add: convert_id arithmetic_exact [where R = "?R"] truncated_quotient_nonneg
        truncated_remainder_nonneg)
  have n0: "0 \<le> n" and nle: "n \<le> e - s"
    using steps_count(1,2) [OF d0 V(2)] by (simp_all add: n)
  have Rn: "in_range ?R n" using n0 nle span by (intro uac_ptrdiff_in_range) simp_all
  have R1: "in_range ?R c" if "c = 0 \<or> c = 1" for c
    using that by (intro uac_ptrdiff_in_range) (auto simp: range_defs)
  have a: "add (Val ?R ((e - s) div st)) (Val int32_t (if (e - s) mod st \<noteq> 0 then 1 else 0)) =
             Inr (Val ?R n)"
    unfolding add_def
    using Rq Rn R1 by (subst arithmetic_exact [where R = "?R"]) (simp_all add: uac_ptrdiff_int n)
  have pn: "in_range ptrdiff_t n" using n0 nle span by (simp add: range_defs)
  have ns: "cast ptrdiff_t (Val ?R n) = Val ptrdiff_t n"
    using pn by (simp add: cast_def convert_id)
  have c5: "compare (\<lambda>a b. b \<le> a) (Val ptrdiff_t n) ?zero"
    using pn n0 by (simp add: compare_zero)
  have z: "convert ptrdiff_t 0 = 0" by (rule convert_id) (simp add: range_defs)
  have it0: "make_iterator_with_step D (Val D s) ?zero ?step = integer_iterator_with_step D s 0 ms"
    using rs z by (simp add: make_iterator_with_step_def cast_def convert_id ms)
  have itn: "make_iterator_with_step D (Val D s) (Val ptrdiff_t n) ?step =
               integer_iterator_with_step D s n ms"
    using rs pn by (simp add: make_iterator_with_step_def cast_def convert_id ms)
  show ?thesis
    unfolding irange_step_def Let_def
    by (simp add: first last c1 c4 m sz d q r a ns c5 it0 itn and_then_def)
qed


section \<open>Dereferencing and advancing an iterator\<close>

lemma arithmetic_no_overflow:
  assumes "R = usual_arithmetic_conversions (type_of x) (type_of y)"
    and "is_signed R \<Longrightarrow> in_range R (f (convert R (value_of x)) (convert R (value_of y)))"
  shows "arithmetic f x y =
           Inr (Val R (convert R (f (convert R (value_of x)) (convert R (value_of y)))))"
  using assms by (auto simp: arithmetic_def Let_def)

lemma convert_add_mod:
  assumes "n \<le> bits R"
  shows "convert R (convert R a + convert R b) mod 2 ^ n = (a + b) mod 2 ^ n"
proof -
  have "convert R (convert R a + convert R b) mod 2 ^ n = (convert R a + convert R b) mod 2 ^ n"
    using assms by (rule convert_mod_le)
  also have "\<dots> = (convert R a mod 2 ^ n + convert R b mod 2 ^ n) mod 2 ^ n"
    by (simp add: mod_add_eq)
  also have "\<dots> = (a mod 2 ^ n + b mod 2 ^ n) mod 2 ^ n"
    using assms by (simp add: convert_mod_le)
  also have "\<dots> = (a + b) mod 2 ^ n" by (simp add: mod_add_eq)
  finally show ?thesis .
qed

lemma bits_uac_ptrdiff: "bits D \<le> bits (usual_arithmetic_conversions D ptrdiff_t)"
  by (cases D; rename_tac r; case_tac r) (simp_all add: type_defs bits_def)

lemma bits_uac_int: "bits D \<le> bits (usual_arithmetic_conversions D int32_t)"
  by (cases D; rename_tac r; case_tac r) (simp_all add: type_defs bits_def)

lemma bits_le_ptrdiff: "bits D \<le> bits ptrdiff_t"
  by (cases D; rename_tac r; case_tac r) (simp_all add: type_defs bits_def)

lemma uac_ptrdiff_same: "usual_arithmetic_conversions ptrdiff_t ptrdiff_t = ptrdiff_t"
  by (simp add: type_defs bits_def)

lemma uac_ptrdiff_int32: "usual_arithmetic_conversions ptrdiff_t int32_t = ptrdiff_t"
  by (simp add: type_defs bits_def)

text \<open>Where the sum of an Integer and a ptrdiff_t is signed, it is a 64-bit signed sum.\<close>

lemma sum_in_range:
  assumes "in_range D s" "in_range D e" "is_signed (usual_arithmetic_conversions D ptrdiff_t)"
    and "\<bar>y\<bar> \<le> x" "x < e - s" "bits D = 64 \<Longrightarrow> 0 \<le> y"
  shows "in_range (usual_arithmetic_conversions D ptrdiff_t) (s + y)"
  using assms
  by (cases D; rename_tac r; case_tac r) (auto simp add: type_defs range_defs abs_le_iff)

lemma increment_with_step:
  assumes "in_range ptrdiff_t j" "in_range ptrdiff_t (j + 1)"
  shows "increment (integer_iterator_with_step D s j ms) =
           Inr (integer_iterator_with_step D s (j + 1) ms)"
proof -
  have "in_range ptrdiff_t 1" by (simp add: range_defs)
  then have "add (Val ptrdiff_t j) (Val int32_t 1) = Inr (Val ptrdiff_t (j + 1))"
    unfolding add_def using assms
    by (subst arithmetic_exact [where R = ptrdiff_t]) (simp_all add: uac_ptrdiff_int32)
  then show ?thesis using assms by (simp add: and_then_def cast_def convert_id)
qed


lemma dereference_with_step:
  assumes rs: "in_range D s" and re: "in_range D e" and st: "0 < st"
    and k: "0 \<le> k" "k * st < e - s"
    and span: "e - s \<le> max_of ptrdiff_t"
    and span': "is_signed (promote D) \<Longrightarrow> e - s \<le> max_of (promote D)"
    and ms: "ms = convert ptrdiff_t (convert D st)"
  shows "dereference (integer_iterator_with_step D s k ms) = Inr (Val D (s + k * st))"
proof -
  let ?R = "usual_arithmetic_conversions D ptrdiff_t"
  have pms: "in_range ptrdiff_t ms" by (simp add: ms convert_in_range)
  have kst0: "0 \<le> k * st" using k st by simp
  have kle: "k \<le> k * st" using k st by (simp add: mult_le_cancel_left1)
  have pk: "in_range ptrdiff_t k" using k kle span by (simp add: range_defs)
  (* the product neither overflows nor exceeds k * st *)
  have prod: "\<bar>k * ms\<bar> \<le> k * st \<and> (bits D = 64 \<longrightarrow> 0 \<le> k * ms)"
  proof (cases "k = 0")
    case True
    then show ?thesis by simp
  next
    case False
    with k have k1: "1 \<le> k" by simp
    then have "st \<le> k * st" using st by (simp add: mult_le_cancel_right1)
    with k span have stmax: "st < e - s" "st \<le> max_of ptrdiff_t" by linarith+
    have c: "\<bar>convert D st\<bar> \<le> st" using st by (intro abs_convert_le) simp
    with stmax have "in_range ptrdiff_t (convert D st)" by (simp add: range_defs abs_le_iff)
    then have msc: "ms = convert D st" by (simp add: ms convert_id)
    with c have "\<bar>ms\<bar> \<le> st" by simp
    then have "\<bar>k\<bar> * \<bar>ms\<bar> \<le> \<bar>k\<bar> * st" using k by (intro mult_left_mono) simp_all
    then have 1: "\<bar>k * ms\<bar> \<le> k * st" using k by (simp add: abs_mult)
    have 2: "0 \<le> k * ms" if b: "bits D = 64"
    proof -
      have "in_range D st"
      proof (cases "is_signed (promote D)")
        case True
        with span' stmax st b show ?thesis
          by (cases D; rename_tac r; case_tac r) (simp_all add: type_defs range_defs)
      next
        case False
        then have "promote D = D" by (rule promote_unsigned)
        with False rs re stmax st show ?thesis
          by (simp add: in_range_def min_of_def)
      qed
      then have "ms = st" by (simp add: msc convert_id)
      with k st show ?thesis by simp
    qed
    from 1 2 show ?thesis by simp
  qed
  have "in_range ptrdiff_t (k * ms)"
    using prod k span by (simp add: range_defs abs_le_iff)
  then have m: "multiply (Val ptrdiff_t k) (Val ptrdiff_t ms) = Inr (Val ptrdiff_t (k * ms))"
    unfolding multiply_def using pk pms
    by (subst arithmetic_exact [where R = ptrdiff_t]) (simp_all add: uac_ptrdiff_same)
  have ok: "in_range ?R (convert ?R s + convert ?R (k * ms))" if sg: "is_signed ?R"
  proof -
    have "in_range ?R s" using rs sg by (intro uac_in_range_left) simp_all
    moreover have "in_range ?R (k * ms)"
      using \<open>in_range ptrdiff_t (k * ms)\<close> sg by (intro uac_in_range_right) simp_all
    moreover have "in_range ?R (s + k * ms)"
      using rs re sg prod k by (intro sum_in_range [where x = "k * st"]) simp_all
    ultimately show ?thesis by (simp add: convert_id)
  qed
  have a: "add (Val D s) (Val ptrdiff_t (k * ms)) =
             Inr (Val ?R (convert ?R (convert ?R s + convert ?R (k * ms))))"
    unfolding add_def using ok by (subst arithmetic_no_overflow [where R = ?R]) simp_all
  have msmod: "ms mod 2 ^ bits D = st mod 2 ^ bits D"
    using convert_mod_le [where T = ptrdiff_t and n = "bits D" and v = "convert D st"]
      bits_le_ptrdiff [of D]
    by (simp add: ms convert_mod)
  have "(k * ms) mod 2 ^ bits D = (k * st) mod 2 ^ bits D"
    using refl msmod by (rule mod_mult_cong)
  with refl have cong: "(s + k * ms) mod 2 ^ bits D = (s + k * st) mod 2 ^ bits D"
    by (rule mod_add_cong)
  have tgt: "in_range D (s + k * st)"
    using rs re k kst0 by (simp add: in_range_def)
  have "convert D (convert ?R (convert ?R s + convert ?R (k * ms))) = s + k * st"
    using tgt convert_add_mod [where R = ?R and n = "bits D" and a = s and b = "k * ms"]
      bits_uac_ptrdiff [of D] cong
    by (intro convert_eqI) simp_all
  then show ?thesis by (simp add: m a and_then_def cast_def)
qed

section \<open>The loop over a range\<close>

lemma for_loop_with_step:
  assumes "\<And>k. j \<le> k \<Longrightarrow> k < n \<Longrightarrow>
             dereference (integer_iterator_with_step D s k ms) = Inr (g k)"
    and "in_range ptrdiff_t j" "j \<le> n" "in_range ptrdiff_t n"
  shows "for_loop (integer_iterator_with_step D s j ms) (integer_iterator_with_step D s n ms) seen =
           Some (Inr (seen @ map g [j..n - 1]))"
  using assms
proof (induction "nat (n - j)" arbitrary: j seen)
  case 0
  then have "j = n" by simp
  then show ?case by (subst for_loop.simps) simp
next
  case (Suc m)
  then have lt: "j < n" by linarith
  have d: "dereference (integer_iterator_with_step D s j ms) = Inr (g j)"
    using lt by (intro Suc.prems(1)) simp_all
  have pj: "in_range ptrdiff_t (j + 1)"
    using Suc.prems(2,4) lt by (simp add: in_range_def)
  have i: "increment (integer_iterator_with_step D s j ms) =
             Inr (integer_iterator_with_step D s (j + 1) ms)"
    using Suc.prems(2) pj by (rule increment_with_step)
  have "for_loop (integer_iterator_with_step D s (j + 1) ms) (integer_iterator_with_step D s n ms)
          (seen @ [g j]) = Some (Inr ((seen @ [g j]) @ map g [j + 1..n - 1]))"
  proof (rule Suc.hyps(1))
    show "m = nat (n - (j + 1))" using Suc.hyps(2) by linarith
    show "dereference (integer_iterator_with_step D s k ms) = Inr (g k)"
      if "j + 1 \<le> k" "k < n" for k using that by (intro Suc.prems(1)) simp_all
    show "in_range ptrdiff_t (j + 1)" by (rule pj)
    show "j + 1 \<le> n" using lt by simp
    show "in_range ptrdiff_t n" by (rule Suc.prems(4))
  qed
  moreover have "[j..n - 1] = j # [j + 1..n - 1]" using lt by (simp add: upto_rec1)
  ultimately show ?case using lt d i by (subst for_loop.simps) simp
qed


section \<open>The type of the values a range produces\<close>

lemma dereference_typed:
  "dereference (integer_iterator_with_step D f j z) = Inr x \<Longrightarrow> type_of x = D \<and> well_typed x"
  by (auto simp: and_then_def cast_def well_typed_def convert_in_range split: sum.splits)

lemma increment_with_step_form:
  "increment (integer_iterator_with_step D f j z) = Inr it' \<Longrightarrow>
   \<exists>j'. it' = integer_iterator_with_step D f j' z"
  by (auto simp: and_then_def split: sum.splits)

lemma for_loop_typed_step:
  assumes "for_loop it end_it seen = Some res"
  shows "(\<exists>f j z. it = integer_iterator_with_step D f j z) \<longrightarrow>
         (\<forall>x\<in>set seen. type_of x = D \<and> well_typed x) \<longrightarrow>
         (\<forall>xs. res = Inr xs \<longrightarrow> (\<forall>x\<in>set xs. type_of x = D \<and> well_typed x))"
  using assms
proof (induct rule: for_loop.raw_induct [rotated, consumes 1])
  case (1 loop it end_it seen res)
  show ?case
  proof (intro impI allI)
    fix xs
    assume it: "\<exists>f j z. it = integer_iterator_with_step D f j z"
      and seen: "\<forall>x\<in>set seen. type_of x = D \<and> well_typed x"
      and res: "res = Inr xs"
    show "\<forall>x\<in>set xs. type_of x = D \<and> well_typed x"
    proof (cases "equal_iterator it end_it")
      case True
      with 1(2) res seen show ?thesis by simp
    next
      case False
      with 1(2) res obtain x it' where
        d: "dereference it = Inr x" and i: "increment it = Inr it'"
        and l: "loop it' end_it (seen @ [x]) = Some res"
        by (auto split: sum.splits)
      from d it have tx: "type_of x = D \<and> well_typed x" using dereference_typed by blast
      from i it have "\<exists>f j z. it' = integer_iterator_with_step D f j z"
        using increment_with_step_form by blast
      moreover from tx seen have "\<forall>y\<in>set (seen @ [x]). type_of y = D \<and> well_typed y"
        by simp
      ultimately show ?thesis using 1(1) [OF l] res by blast
    qed
  qed
qed

lemma for_loop_typed:
  assumes "for_loop (integer_iterator_with_step D f j z) end_it [] = Some (Inr xs)"
  shows "\<forall>x\<in>set xs. type_of x = D \<and> well_typed x"
  using for_loop_typed_step [OF assms, of D] by simp

section \<open>What range returns\<close>

lemma irange_step_form:
  "irange_step D a b st = Inr r \<Longrightarrow>
   \<exists>f j n z. r = iterator_range (integer_iterator_with_step D f j z)
                                (integer_iterator_with_step D f n z)"
  by (auto simp: irange_step_def Let_def and_then_def make_iterator_with_step_def
      split: if_splits sum.splits)

lemma irange_step_cast:
  "cast D a = cast D a' \<Longrightarrow> cast D b = cast D b' \<Longrightarrow>
   irange_step D a b st = irange_step D a' b' st"
  by (simp add: irange_step_def)


lemma range3_positive:
  assumes V: "in_range V st" "0 < st" "st \<le> max_of ptrdiff_t"
    and D: "D = conditional_type (type_of start) (type_of stop)"
    and s: "s = convert D (value_of start)"
    and e: "e = convert D (value_of stop)"
    and le: "s \<le> e"
    and span: "e - s \<le> max_of ptrdiff_t"
    and span': "is_signed (promote D) \<Longrightarrow> e - s \<le> max_of (promote D)"
    and n: "n = (e - s) div st + (if (e - s) mod st \<noteq> 0 then 1 else 0)"
  shows "produced (range3 start stop (Val V st)) =
           Some (Inr (map (\<lambda>k. Val D (s + k * st)) [0..n - 1]))"
proof -
  define ms where "ms = convert ptrdiff_t (convert D st)"
  have d0: "0 \<le> e - s" using le by simp
  have r: "range3 start stop (Val V st) =
             Inr (iterator_range (integer_iterator_with_step D s 0 ms)
                                 (integer_iterator_with_step D s n ms))"
    unfolding range3_def Let_def D [symmetric]
    using V s e le span span' n ms_def by (rule irange_step_positive)
  have rs: "in_range D s" and re: "in_range D e"
    by (simp_all add: s e convert_in_range)
  have n0: "0 \<le> n" and nle: "n \<le> e - s"
    using steps_count(1,2) [OF d0 V(2)] by (simp_all add: n)
  have deref: "dereference (integer_iterator_with_step D s k ms) = Inr (Val D (s + k * st))"
    if "0 \<le> k" "k < n" for k
  proof -
    from that(2) have "k * st < e - s"
      using steps_count(3) [OF d0 V(2), of k] by (simp add: n)
    with rs re V(2) that(1) show ?thesis
      using span span' ms_def by (rule dereference_with_step)
  qed
  have "for_loop (integer_iterator_with_step D s 0 ms) (integer_iterator_with_step D s n ms) [] =
          Some (Inr ([] @ map (\<lambda>k. Val D (s + k * st)) [0..n - 1]))"
  proof (rule for_loop_with_step)
    show "dereference (integer_iterator_with_step D s k ms) = Inr (Val D (s + k * st))"
      if "0 \<le> k" "k < n" for k using that by (rule deref)
    show "in_range ptrdiff_t 0" by (simp add: range_defs)
    show "0 \<le> n" by (rule n0)
    show "in_range ptrdiff_t n" using n0 nle span by (simp add: range_defs)
  qed
  then show ?thesis by (simp add: produced_def r range_for_def)
qed

text \<open>
  Outside the bounds of \<open>range3_positive\<close> a call can fail: a span that overflows
  \<open>last - first\<close>, a step that \<open>std::ptrdiff_t\<close> does not hold, a number of steps
  that \<open>std::ptrdiff_t\<close> does not hold.
\<close>

lemma range_span_overflow:
  "range2 (Val int32_t (- (2 ^ 31))) (Val int32_t (2 ^ 31 - 1)) = Inl undefined_behaviour"
  by code_simp

lemma range_step_too_large:
  "range3 (Val int32_t 0) (Val int32_t 5) (Val uint64_t (2 ^ 64 - 1)) = Inl assertion_failed"
  by code_simp

lemma range_span_exceeds_ptrdiff:
  "range2 (Val uint64_t 0) (Val uint64_t (2 ^ 63)) = Inl assertion_failed"
  by code_simp

section \<open>The claims about range\<close>

lemma range_250_300:
  "range3 (Val uint8_t 250) (Val int32_t 300) (Val int32_t 1) =
     Inr (iterator_range (integer_iterator_with_step int32_t 250 0 1)
                         (integer_iterator_with_step int32_t 250 50 1))"
  by code_simp

lemma produced_250_300:
  "produced (range2 (Val uint8_t 250) (Val int32_t 300)) =
     Some (Inr (map (Val int32_t) [250..299]))"
proof -
  have "produced (range3 (Val uint8_t 250) (Val int32_t 300) (Val int32_t 1)) =
          Some (Inr (map (\<lambda>k. Val int32_t (250 + k * 1)) [0..50 - 1]))"
    by (rule range3_positive)
       (simp_all add: range_defs conditional_type_def type_defs convert_def)
  moreover have "map (\<lambda>k. Val int32_t (250 + k * 1)) [0..50 - 1] = map (Val int32_t) [250..299]"
    by (simp add: upto_rec1)
  ultimately show ?thesis by (simp add: range2_def)
qed

lemma conditional_type_rank:
  "T \<noteq> U \<Longrightarrow>
   rank_index (rank_of (conditional_type T U)) =
     max (rank_index int_rank) (max (rank_index (rank_of T)) (rank_index (rank_of U)))"
  by (cases T; cases U; rename_tac r1 r2; case_tac r1; case_tac r2)
     (simp_all add: conditional_type_def type_defs bits_def)

lemma conditional_type_signed:
  "T \<noteq> U \<Longrightarrow>
   is_signed (conditional_type T U) =
     ((is_signed T \<or> bits T < bits (conditional_type T U)) \<and>
      (is_signed U \<or> bits U < bits (conditional_type T U)))"
  by (cases T; cases U; rename_tac r1 r2; case_tac r1; case_tac r2)
     (simp_all add: conditional_type_def type_defs bits_def)

lemma conditional_type_holds:
  assumes "in_range T v \<or> in_range U v" "is_signed (conditional_type T U) \<or> 0 \<le> v"
  shows "convert (conditional_type T U) v = v"
proof (cases "T = U")
  case True
  with assms show ?thesis by (simp add: conditional_type_def convert_id)
next
  case False
  then have c: "conditional_type T U = usual_arithmetic_conversions T U"
    by (simp add: conditional_type_def)
  from assms(1) have "in_range (usual_arithmetic_conversions T U) v"
  proof
    assume "in_range T v"
    then show ?thesis using assms(2) unfolding c by (rule uac_in_range_left)
  next
    assume "in_range U v"
    then show ?thesis using assms(2) unfolding c by (rule uac_in_range_right)
  qed
  then show ?thesis by (simp add: c convert_id)
qed

lemma irange_step_begin:
  "irange_step D a b st = Inr r \<Longrightarrow>
   \<exists>n z. r = iterator_range (integer_iterator_with_step D (convert D (value_of a)) 0 z)
                            (integer_iterator_with_step D (convert D (value_of a)) n z)"
proof -
  have z: "convert ptrdiff_t 0 = 0" by (rule convert_id) (simp add: range_defs)
  have i: "convert D (convert D (value_of a)) = convert D (value_of a)"
    by (simp add: convert_id convert_in_range)
  assume "irange_step D a b st = Inr r"
  then show ?thesis
    by (auto simp: irange_step_def Let_def and_then_def make_iterator_with_step_def cast_def z i
        split: if_splits sum.splits)
qed


lemma range3_positive_values:
  assumes V: "in_range V st" "0 < st" "st \<le> max_of ptrdiff_t"
    and D: "D = conditional_type (type_of start) (type_of stop)"
    and s: "s = convert D (value_of start)"
    and e: "e = convert D (value_of stop)"
    and le: "s \<le> e"
    and span: "e - s \<le> max_of ptrdiff_t"
    and span': "is_signed (promote D) \<Longrightarrow> e - s \<le> max_of (promote D)"
  shows "\<exists>xs. produced (range3 start stop (Val V st)) = Some (Inr (map (Val D) xs)) \<and>
              (\<forall>x\<in>set xs. s \<le> x \<and> x < e) \<and> (s < e \<longrightarrow> xs \<noteq> [] \<and> hd xs = s)"
proof -
  define n where "n = (e - s) div st + (if (e - s) mod st \<noteq> 0 then 1 else 0)"
  let ?xs = "map (\<lambda>k. s + k * st) [0..n - 1]"
  have d0: "0 \<le> e - s" using le by simp
  have cnt: "(k < n) = (k * st < e - s)" for k
    using steps_count(3) [OF d0 V(2), of k] by (simp add: n_def)
  have "produced (range3 start stop (Val V st)) =
          Some (Inr (map (\<lambda>k. Val D (s + k * st)) [0..n - 1]))"
    using V D s e le span span' n_def by (rule range3_positive)
  then have 1: "produced (range3 start stop (Val V st)) = Some (Inr (map (Val D) ?xs))"
    by (simp add: comp_def)
  have 2: "\<forall>x\<in>set ?xs. s \<le> x \<and> x < e"
  proof
    fix x assume "x \<in> set ?xs"
    then obtain k where k: "0 \<le> k" "k < n" and x: "x = s + k * st" by auto
    from k(2) have "k * st < e - s" by (simp add: cnt)
    moreover have "0 \<le> k * st" using k(1) V(2) by simp
    ultimately show "s \<le> x \<and> x < e" by (simp add: x)
  qed
  have 3: "?xs \<noteq> [] \<and> hd ?xs = s" if "s < e"
  proof -
    from that have "0 < n" using cnt [of 0] by simp
    then have "[0..n - 1] = 0 # [0 + 1..n - 1]" by (subst upto_rec1) simp_all
    then show ?thesis by simp
  qed
  from 1 2 3 show ?thesis by blast
qed

text \<open>
  C2: the type \<open>D\<close> of \<open>range(start, end, step)\<close> is the decayed type of
  \<open>true ? start : end\<close>: the arguments' own type when they have the same type, and
  otherwise the type of the greater rank of the two, at least that of \<open>int\<close>, which is
  signed exactly when it then holds every value of both types. \<open>D\<close> holds unchanged every
  value of either type that its signedness admits. The call converts both endpoints to
  \<open>D\<close>: it gives what the call with the endpoints already converted gives, a range it
  returns begins at the converted \<open>start\<close>, and every value the range produces has the type
  \<open>D\<close>. Where the converted endpoints \<open>s \<le> e\<close>, a positive step and the span \<open>e - s\<close>
  are within the bounds of \<open>std::ptrdiff_t\<close> and of the promoted \<open>D\<close>, the call returns
  and the range produces values of \<open>D\<close> from \<open>s\<close> up to, and not including, \<open>e\<close>. For
  \<open>range(uint8_t{250}, int{300})\<close> the type \<open>D\<close> is \<open>int\<close>, which holds 250 and 300
  unchanged, and the range produces 250, ..., 299, the last value being 299.
\<close>
theorem range_common_type:
  fixes start stop step :: cpp_int and T U :: int_type and v :: int
  defines "D \<equiv> conditional_type (type_of start) (type_of stop)"
  defines "s \<equiv> convert D (value_of start)"
  defines "e \<equiv> convert D (value_of stop)"
  shows
  "conditional_type T T = T \<and>
   (T \<noteq> U \<longrightarrow>
      rank_index (rank_of (conditional_type T U)) =
        max (rank_index int_rank) (max (rank_index (rank_of T)) (rank_index (rank_of U))) \<and>
      is_signed (conditional_type T U) =
        ((is_signed T \<or> bits T < bits (conditional_type T U)) \<and>
         (is_signed U \<or> bits U < bits (conditional_type T U)))) \<and>
   ((in_range T v \<or> in_range U v) \<and> (is_signed (conditional_type T U) \<or> 0 \<le> v) \<longrightarrow>
      convert (conditional_type T U) v = v) \<and>
   range3 start stop step = range3 (Val D s) (Val D e) step \<and>
   (\<forall>r. range3 start stop step = Inr r \<longrightarrow>
      (\<exists>n z. r = iterator_range (integer_iterator_with_step D s 0 z)
                               (integer_iterator_with_step D s n z))) \<and>
   (\<forall>r xs. range3 start stop step = Inr r \<and> range_for r = Some (Inr xs) \<longrightarrow>
      (\<forall>x\<in>set xs. type_of x = D \<and> well_typed x)) \<and>
   (well_typed step \<and> 0 < value_of step \<and> value_of step \<le> max_of ptrdiff_t \<and>
    s \<le> e \<and> e - s \<le> max_of ptrdiff_t \<and>
    (is_signed (promote D) \<longrightarrow> e - s \<le> max_of (promote D)) \<longrightarrow>
      (\<exists>xs. produced (range3 start stop step) = Some (Inr (map (Val D) xs)) \<and>
            (\<forall>x\<in>set xs. s \<le> x \<and> x < e) \<and> (s < e \<longrightarrow> xs \<noteq> [] \<and> hd xs = s))) \<and>
   conditional_type uint8_t int32_t = int32_t \<and>
   conditional_type int32_t uint8_t = int32_t \<and>
   convert int32_t 250 = 250 \<and> convert int32_t 300 = 300 \<and>
   produced (range2 (Val uint8_t 250) (Val int32_t 300)) =
     Some (Inr (map (Val int32_t) [250..299])) \<and>
   last (map (Val int32_t) [250..299]) = Val int32_t 299"
proof -
  have dd: "conditional_type D D = D" by (simp add: conditional_type_def)
  have a1: "conditional_type T T = T" by (simp add: conditional_type_def)
  have a2: "rank_index (rank_of (conditional_type T U)) =
        max (rank_index int_rank) (max (rank_index (rank_of T)) (rank_index (rank_of U))) \<and>
      is_signed (conditional_type T U) =
        ((is_signed T \<or> bits T < bits (conditional_type T U)) \<and>
         (is_signed U \<or> bits U < bits (conditional_type T U)))" if "T \<noteq> U"
    using that conditional_type_rank conditional_type_signed by blast
  have a3: "convert (conditional_type T U) v = v"
    if "(in_range T v \<or> in_range U v) \<and> (is_signed (conditional_type T U) \<or> 0 \<le> v)"
    using that conditional_type_holds by blast
  have b1: "range3 start stop step = range3 (Val D s) (Val D e) step"
    unfolding range3_def Let_def D_def [symmetric]
    by (simp add: dd) (rule irange_step_cast; simp add: cast_def s_def e_def convert_id convert_in_range)
  have b2: "\<exists>n z. r = iterator_range (integer_iterator_with_step D s 0 z)
                                   (integer_iterator_with_step D s n z)"
    if "range3 start stop step = Inr r" for r
    using that unfolding range3_def Let_def D_def [symmetric] s_def by (rule irange_step_begin)
  have b3: "\<forall>x\<in>set xs. type_of x = D \<and> well_typed x"
    if "range3 start stop step = Inr r \<and> range_for r = Some (Inr xs)" for r xs
  proof -
    from that b2 obtain n z where
      r: "r = iterator_range (integer_iterator_with_step D s 0 z) (integer_iterator_with_step D s n z)"
      by blast
    with that have "for_loop (integer_iterator_with_step D s 0 z)
        (integer_iterator_with_step D s n z) [] = Some (Inr xs)"
      by (simp add: range_for_def)
    then show ?thesis by (rule for_loop_typed)
  qed
  have b4: "\<exists>xs. produced (range3 start stop step) = Some (Inr (map (Val D) xs)) \<and>
            (\<forall>x\<in>set xs. s \<le> x \<and> x < e) \<and> (s < e \<longrightarrow> xs \<noteq> [] \<and> hd xs = s)"
    if h: "well_typed step \<and> 0 < value_of step \<and> value_of step \<le> max_of ptrdiff_t \<and>
        s \<le> e \<and> e - s \<le> max_of ptrdiff_t \<and>
        (is_signed (promote D) \<longrightarrow> e - s \<le> max_of (promote D))"
  proof -
    obtain V st where step: "step = Val V st" by (cases step)
    from h have V: "in_range V st" "0 < st" "st \<le> max_of ptrdiff_t"
      by (simp_all add: step well_typed_def)
    from h have le: "s \<le> e" and span: "e - s \<le> max_of ptrdiff_t"
      and span': "is_signed (promote D) \<Longrightarrow> e - s \<le> max_of (promote D)"
      by simp_all
    have eqs: "D = conditional_type (type_of start) (type_of stop)"
      "s = convert D (value_of start)" "e = convert D (value_of stop)"
      by (simp_all add: D_def s_def e_def)
    show ?thesis
      unfolding step
      using V eqs le span span' by (rule range3_positive_values)
  qed
  have c1: "conditional_type uint8_t int32_t = int32_t" "conditional_type int32_t uint8_t = int32_t"
    by (simp_all add: conditional_type_def type_defs bits_def)
  have c2: "convert int32_t 250 = 250" "convert int32_t 300 = 300"
    by (simp_all add: convert_def bits_def)
  have c3: "last (map (Val int32_t) [250..299]) = Val int32_t 299"
    by (simp add: last_map upto_rec2)
  show ?thesis
  proof (intro conjI impI allI)
    show "conditional_type T T = T" by (rule a1)
    show "rank_index (rank_of (conditional_type T U)) =
        max (rank_index int_rank) (max (rank_index (rank_of T)) (rank_index (rank_of U)))"
      and "is_signed (conditional_type T U) =
        ((is_signed T \<or> bits T < bits (conditional_type T U)) \<and>
         (is_signed U \<or> bits U < bits (conditional_type T U)))" if "T \<noteq> U"
      using a2 [OF that] by simp_all
    show "convert (conditional_type T U) v = v"
      if "(in_range T v \<or> in_range U v) \<and> (is_signed (conditional_type T U) \<or> 0 \<le> v)"
      using that by (rule a3)
    show "range3 start stop step = range3 (Val D s) (Val D e) step" by (rule b1)
    show "\<exists>n z. r = iterator_range (integer_iterator_with_step D s 0 z)
                                  (integer_iterator_with_step D s n z)"
      if "range3 start stop step = Inr r" for r using that by (rule b2)
    show "\<forall>x\<in>set xs. type_of x = D \<and> well_typed x"
      if "range3 start stop step = Inr r \<and> range_for r = Some (Inr xs)" for r xs
      using that by (rule b3)
    show "\<exists>xs. produced (range3 start stop step) = Some (Inr (map (Val D) xs)) \<and>
            (\<forall>x\<in>set xs. s \<le> x \<and> x < e) \<and> (s < e \<longrightarrow> xs \<noteq> [] \<and> hd xs = s)"
      if "well_typed step \<and> 0 < value_of step \<and> value_of step \<le> max_of ptrdiff_t \<and>
        s \<le> e \<and> e - s \<le> max_of ptrdiff_t \<and>
        (is_signed (promote D) \<longrightarrow> e - s \<le> max_of (promote D))"
      using that by (rule b4)
  qed (rule c1 c2 c3 produced_250_300)+
qed


theorem range_common_type_witness:
  "uint8_t \<noteq> int32_t \<and>
   rank_index (rank_of (conditional_type uint8_t int32_t)) = rank_index int_rank \<and>
   is_signed (conditional_type uint8_t int32_t) \<and>
   in_range uint8_t 250 \<and>
   convert (conditional_type uint8_t int32_t) 250 = 250 \<and>
   range3 (Val uint8_t 250) (Val int32_t 300) (Val int32_t 1) =
     Inr (iterator_range (integer_iterator_with_step int32_t 250 0 1)
                         (integer_iterator_with_step int32_t 250 50 1)) \<and>
   range_for (iterator_range (integer_iterator_with_step int32_t 250 0 1)
                             (integer_iterator_with_step int32_t 250 50 1)) =
     Some (Inr (map (Val int32_t) [250..299])) \<and>
   type_of (Val int32_t 299) = conditional_type uint8_t int32_t \<and>
   well_typed (Val int32_t 299) \<and>
   well_typed (Val int32_t 1) \<and> 0 < value_of (Val int32_t 1) \<and>
   value_of (Val int32_t 1) \<le> max_of ptrdiff_t \<and>
   convert int32_t 250 \<le> convert int32_t 300 \<and>
   convert int32_t 300 - convert int32_t 250 \<le> max_of ptrdiff_t \<and>
   is_signed (promote int32_t) \<and>
   convert int32_t 300 - convert int32_t 250 \<le> max_of (promote int32_t) \<and>
   (\<exists>xs. produced (range3 (Val uint8_t 250) (Val int32_t 300) (Val int32_t 1)) =
           Some (Inr (map (Val int32_t) xs)) \<and> xs \<noteq> [] \<and> hd xs = 250)"
proof -
  let ?r = "iterator_range (integer_iterator_with_step int32_t 250 0 1)
                           (integer_iterator_with_step int32_t 250 50 1)"
  note t = range_common_type [where start = "Val uint8_t 250" and stop = "Val int32_t 300"
      and step = "Val int32_t 1" and T = uint8_t and U = int32_t and v = 250]
  have D: "conditional_type uint8_t int32_t = int32_t"
    by (simp add: conditional_type_def type_defs bits_def)
  have cv: "convert int32_t 250 = 250" "convert int32_t 300 = 300"
    by (simp_all add: convert_def bits_def)
  have a: "range3 (Val uint8_t 250) (Val int32_t 300) (Val int32_t 1) = Inr ?r"
    by (rule range_250_300)
  have b: "range_for ?r = Some (Inr (map (Val int32_t) [250..299]))"
    using produced_250_300 by (simp add: range2_def a produced_def)
  have h: "well_typed (Val int32_t 1)" "0 < value_of (Val int32_t 1)"
    "value_of (Val int32_t 1) \<le> max_of ptrdiff_t"
    "convert int32_t 250 \<le> convert int32_t 300"
    "convert int32_t 300 - convert int32_t 250 \<le> max_of ptrdiff_t"
    "is_signed (promote int32_t)"
    "convert int32_t 300 - convert int32_t 250 \<le> max_of (promote int32_t)"
    "in_range uint8_t 250" "uint8_t \<noteq> int32_t"
    by (simp_all add: cv well_typed_def range_defs promote_def)
  from t [THEN conjunct2, THEN conjunct1] h(9)
  have 1: "rank_index (rank_of (conditional_type uint8_t int32_t)) = rank_index int_rank \<and>
           is_signed (conditional_type uint8_t int32_t)"
    by (simp add: D bits_def)
  from t [THEN conjunct2, THEN conjunct2, THEN conjunct1] h(8) 1
  have 2: "convert (conditional_type uint8_t int32_t) 250 = 250" by simp
  from t [THEN conjunct2, THEN conjunct2, THEN conjunct2, THEN conjunct2, THEN conjunct2,
      THEN conjunct1, rule_format, of ?r "map (Val int32_t) [250..299]" "Val int32_t 299"] a b
  have 3: "type_of (Val int32_t 299) = conditional_type uint8_t int32_t \<and>
           well_typed (Val int32_t 299)"
    by (simp add: upto_rec2)
  from t [THEN conjunct2, THEN conjunct2, THEN conjunct2, THEN conjunct2, THEN conjunct2,
      THEN conjunct2, THEN conjunct1] h(1-7)
  have "\<exists>xs. produced (range3 (Val uint8_t 250) (Val int32_t 300) (Val int32_t 1)) =
             Some (Inr (map (Val int32_t) xs)) \<and>
             (\<forall>x\<in>set xs. 250 \<le> x \<and> x < 300) \<and> ((250::int) < 300 \<longrightarrow> xs \<noteq> [] \<and> hd xs = 250)"
    by (simp add: D cv)
  then have 4: "\<exists>xs. produced (range3 (Val uint8_t 250) (Val int32_t 300) (Val int32_t 1)) =
             Some (Inr (map (Val int32_t) xs)) \<and> xs \<noteq> [] \<and> hd xs = 250"
    by auto
  from h 1 2 a b 3 4 show ?thesis by (intro conjI) simp_all
qed

text \<open>
  C5, as amended: let \<open>s\<close> and \<open>e\<close> be \<open>start\<close> and \<open>end\<close> converted to the common type
  \<open>D\<close>. When \<open>s \<le> e\<close>, the step is positive and fits \<open>std::ptrdiff_t\<close>, and \<open>e - s\<close>
  fits \<open>std::ptrdiff_t\<close> and, where the promoted \<open>D\<close> is signed, the promoted \<open>D\<close>, then
  \<open>range(start, end, step)\<close> produces exactly \<open>s, s + step, s + 2 * step, ...\<close>, in this
  order: the values \<open>s + k * step\<close> with \<open>k \<ge> 0\<close> that are less than \<open>e\<close>.
\<close>
theorem range_half_open:
  assumes "well_typed step" "0 < value_of step" "value_of step \<le> max_of ptrdiff_t"
    and "D = conditional_type (type_of start) (type_of stop)"
    and "s = convert D (value_of start)"
    and "e = convert D (value_of stop)"
    and "s \<le> e"
    and "e - s \<le> max_of ptrdiff_t"
    and "is_signed (promote D) \<longrightarrow> e - s \<le> max_of (promote D)"
  shows "\<exists>n. produced (range3 start stop step) =
               Some (Inr (map (\<lambda>k. Val D (s + k * value_of step)) [0..n - 1])) \<and>
             (\<forall>k. 0 \<le> k \<longrightarrow> (k < n) = (s + k * value_of step < e))"
proof -
  obtain V st where step: "step = Val V st" by (cases step)
  define n where "n = (e - s) div st + (if (e - s) mod st \<noteq> 0 then 1 else 0)"
  have V: "in_range V st" "0 < st" "st \<le> max_of ptrdiff_t"
    using assms(1-3) by (simp_all add: step well_typed_def)
  have d0: "0 \<le> e - s" using assms(7) by simp
  have "produced (range3 start stop (Val V st)) =
          Some (Inr (map (\<lambda>k. Val D (s + k * st)) [0..n - 1]))"
    using V assms(4-8) _ n_def by (rule range3_positive) (simp add: assms(9))
  moreover have "(k < n) = (s + k * st < e)" for k
    using steps_count(3) [OF d0 V(2), of k] by (auto simp: n_def)
  ultimately show ?thesis by (auto simp: step)
qed

theorem range_half_open_witness:
  "well_typed (Val int32_t 3) \<and> 0 < value_of (Val int32_t 3) \<and>
   value_of (Val int32_t 3) \<le> max_of ptrdiff_t \<and>
   int32_t = conditional_type (type_of (Val int32_t 0)) (type_of (Val int32_t 10)) \<and>
   0 = convert int32_t (value_of (Val int32_t 0)) \<and>
   10 = convert int32_t (value_of (Val int32_t 10)) \<and>
   (0::int) \<le> 10 \<and> 10 - 0 \<le> max_of ptrdiff_t \<and>
   is_signed (promote int32_t) \<and> 10 - 0 \<le> max_of (promote int32_t) \<and>
   produced (range3 (Val int32_t 0) (Val int32_t 10) (Val int32_t 3)) =
     Some (Inr [Val int32_t 0, Val int32_t 3, Val int32_t 6, Val int32_t 9]) \<and>
   produced (range2 (Val int32_t 2) (Val int32_t 7)) =
     Some (Inr [Val int32_t 2, Val int32_t 3, Val int32_t 4, Val int32_t 5, Val int32_t 6]) \<and>
   produced (range2 (Val int32_t 3) (Val int32_t 3)) = Some (Inr [])"
proof -
  have t: "int32_t = conditional_type (type_of (Val int32_t a)) (type_of (Val int32_t b))"
    "a = convert int32_t (value_of (Val int32_t a))" if "in_range int32_t a" for a b
    using that by (simp_all add: conditional_type_def convert_id)
  have r: "in_range int32_t 0" "in_range int32_t 2" "in_range int32_t 3" "in_range int32_t 7"
    "in_range int32_t 10" "in_range int32_t 1"
    by (simp_all add: range_defs)
  have p: "is_signed (promote int32_t) \<longrightarrow> d \<le> max_of (promote int32_t)"
    "d \<le> max_of ptrdiff_t" "is_signed (promote int32_t)" "d \<le> max_of (promote int32_t)"
    if "d \<le> 10" for d :: int
    using that by (simp_all add: promote_def range_defs)
  have st: "well_typed (Val int32_t 3)" "0 < value_of (Val int32_t 3)"
    "value_of (Val int32_t 3) \<le> max_of ptrdiff_t"
    "well_typed (Val int32_t 1)" "0 < value_of (Val int32_t 1)"
    "value_of (Val int32_t 1) \<le> max_of ptrdiff_t"
    by (simp_all add: well_typed_def range_defs)
  (* range(0, 10, 3) *)
  from range_half_open [OF st(1-3) t(1) [OF r(1)] t(2) [OF r(1)] t(2) [OF r(5)]]
  obtain n where
    a: "produced (range3 (Val int32_t 0) (Val int32_t 10) (Val int32_t 3)) =
          Some (Inr (map (\<lambda>k. Val int32_t (0 + k * value_of (Val int32_t 3))) [0..n - 1]))"
    and c: "\<forall>k. 0 \<le> k \<longrightarrow> (k < n) = (0 + k * value_of (Val int32_t 3) < 10)"
    using p [of "10 - 0"] by auto
  from c [rule_format, of 3] c [rule_format, of 4] have "n = 4" by simp
  with a have 1: "produced (range3 (Val int32_t 0) (Val int32_t 10) (Val int32_t 3)) =
      Some (Inr [Val int32_t 0, Val int32_t 3, Val int32_t 6, Val int32_t 9])"
    by (simp add: upto_rec1)
  (* range(2, 7) *)
  from range_half_open [OF st(4-6) t(1) [OF r(2)] t(2) [OF r(2)] t(2) [OF r(4)]]
  obtain m where
    a: "produced (range3 (Val int32_t 2) (Val int32_t 7) (Val int32_t 1)) =
          Some (Inr (map (\<lambda>k. Val int32_t (2 + k * value_of (Val int32_t 1))) [0..m - 1]))"
    and c: "\<forall>k. 0 \<le> k \<longrightarrow> (k < m) = (2 + k * value_of (Val int32_t 1) < 7)"
    using p [of "7 - 2"] by auto
  from c [rule_format, of 4] c [rule_format, of 5] have "m = 5" by simp
  with a have 2: "produced (range2 (Val int32_t 2) (Val int32_t 7)) =
      Some (Inr [Val int32_t 2, Val int32_t 3, Val int32_t 4, Val int32_t 5, Val int32_t 6])"
    by (simp add: range2_def upto_rec1)
  (* range(3, 3) *)
  from range_half_open [OF st(4-6) t(1) [OF r(3)] t(2) [OF r(3)] t(2) [OF r(3)]]
  obtain l where
    a: "produced (range3 (Val int32_t 3) (Val int32_t 3) (Val int32_t 1)) =
          Some (Inr (map (\<lambda>k. Val int32_t (3 + k * value_of (Val int32_t 1))) [0..l - 1]))"
    and c: "\<forall>k. 0 \<le> k \<longrightarrow> (k < l) = (3 + k * value_of (Val int32_t 1) < 3)"
    using p [of "3 - 3"] by auto
  from c [rule_format, of 0] have "l \<le> 0" by simp
  with a have 3: "produced (range2 (Val int32_t 3) (Val int32_t 3)) = Some (Inr [])"
    by (simp add: range2_def)
  from st(1-3) t(1) [OF r(1), of 10] t(2) [OF r(1)] t(2) [OF r(5)] p(2-4) [of "10 - 0"] 1 2 3
  show ?thesis by simp
qed

text \<open>
  With \<open>start > end\<close> and the default step, \<open>range(7, 2)\<close> fails the assertion
  \<open>last >= first\<close> of \<open>boost::irange\<close>: it does not produce the empty sequence.
\<close>

theorem range_descending_fails:
  "range2 (Val int32_t 7) (Val int32_t 2) = Inl assertion_failed \<and>
   produced (range2 (Val int32_t 7) (Val int32_t 2)) \<noteq> Some (Inr [])"
  by code_simp

lemma for_loop_at_values:
  assumes "for_loop_at s c d seen = Some y"
  shows "c < length s \<longrightarrow> d < length s \<longrightarrow> c \<noteq> d \<longrightarrow>
         for_loop (s ! c) (s ! d) seen = Some (values_seen y)"
  using assms
proof (induct rule: for_loop_at.raw_induct [rotated, consumes 1])
  case (1 loop s c d seen y)
  show ?case
  proof (intro impI)
    assume c: "c < length s" and d: "d < length s" and cd: "c \<noteq> d"
    show "for_loop (s ! c) (s ! d) seen = Some (values_seen y)"
    proof (cases "equal_iterator (s ! c) (s ! d)")
      case True
      with 1(2) c d have "y = Inr (seen, s)" by simp
      with True show ?thesis by (subst for_loop.simps) simp
    next
      case False
      show ?thesis
      proof (cases "dereference (s ! c)")
        case (Inl e)
        with 1(2) c d False have "y = Inl e" by simp
        with False Inl show ?thesis by (subst for_loop.simps) simp
      next
        case (Inr x)
        show ?thesis
        proof (cases "increment (s ! c)")
          case (Inl e)
          with 1(2) c d False Inr have "y = Inl e" by simp
          with False Inr Inl show ?thesis by (subst for_loop.simps) simp
        next
          case i: (Inr it')
          with 1(2) c d False Inr have "loop (s[c := it']) c d (seen @ [x]) = Some y" by simp
          from 1(1) [OF this] c d cd
          have "for_loop it' (s ! d) (seen @ [x]) = Some (values_seen y)" by simp
          with False Inr i show ?thesis by (subst for_loop.simps) simp
        qed
      qed
    qed
  qed
qed

lemma for_loop_at_total:
  assumes "for_loop it e seen = Some z"
  shows "\<forall>s c d. c < length s \<and> d < length s \<and> c \<noteq> d \<and> s ! c = it \<and> s ! d = e \<longrightarrow>
           (\<exists>y. for_loop_at s c d seen = Some y \<and> values_seen y = z \<and>
                (\<forall>xs st. y = Inr (xs, st) \<longrightarrow> (\<exists>it'. st = s[c := it'])))"
  using assms
proof (induct rule: for_loop.raw_induct [rotated, consumes 1])
  case (1 loop it e seen z)
  show ?case
  proof (intro allI impI, elim conjE)
    fix s :: store and c d
    assume c: "c < length s" and d: "d < length s" and cd: "c \<noteq> d"
      and sc: "s ! c = it" and sd: "s ! d = e"
    show "\<exists>y. for_loop_at s c d seen = Some y \<and> values_seen y = z \<and>
               (\<forall>xs st. y = Inr (xs, st) \<longrightarrow> (\<exists>it'. st = s[c := it']))"
    proof (cases "equal_iterator it e")
      case True
      with 1(2) have z: "z = Inr seen" by simp
      have "for_loop_at s c d seen = Some (Inr (seen, s))"
        using True c d sc sd by (subst for_loop_at.simps) simp
      moreover have "s = s[c := it]" using sc by auto
      ultimately show ?thesis using z by auto
    next
      case False
      show ?thesis
      proof (cases "dereference it")
        case (Inl f)
        with 1(2) False have "z = Inl f" by simp
        moreover have "for_loop_at s c d seen = Some (Inl f)"
          using False Inl c d sc sd by (subst for_loop_at.simps) simp
        ultimately show ?thesis by simp
      next
        case (Inr x)
        show ?thesis
        proof (cases "increment it")
          case (Inl f)
          with 1(2) False Inr have "z = Inl f" by simp
          moreover have "for_loop_at s c d seen = Some (Inl f)"
            using False Inr Inl c d sc sd by (subst for_loop_at.simps) simp
          ultimately show ?thesis by simp
        next
          case i: (Inr it')
          with 1(2) False Inr have l: "loop it' e (seen @ [x]) = Some z" by simp
          let ?s = "s[c := it']"
          have "c < length ?s \<and> d < length ?s \<and> c \<noteq> d \<and> ?s ! c = it' \<and> ?s ! d = e"
            using c d cd sd by simp
          with 1(1) [OF l] obtain y where
            y: "for_loop_at ?s c d (seen @ [x]) = Some y" "values_seen y = z"
               "\<forall>xs st. y = Inr (xs, st) \<longrightarrow> (\<exists>it''. st = ?s[c := it''])"
            by blast
          have "for_loop_at s c d seen = Some y"
            using False Inr i c d sc sd y(1) by (subst for_loop_at.simps) simp
          moreover have "\<forall>xs st. y = Inr (xs, st) \<longrightarrow> (\<exists>it''. st = s[c := it''])"
            using y(3) by auto
          ultimately show ?thesis using y(2) by blast
        qed
      qed
    qed
  qed
qed

text \<open>The loop on the copies: the values it sees, and the store it leaves.\<close>

lemma range_for_at_unfold:
  assumes "begin_at r < length s" "end_at r < length s"
  shows "range_for_at s r =
           for_loop_at (s @ [s ! begin_at r, s ! end_at r]) (length s) (Suc (length s)) []"
  using assms by (simp add: range_for_at_def new_object_def nth_append)

lemma for_loop_at_copies:
  assumes l: "for_loop b e [] = Some z"
  shows "\<exists>y. for_loop_at (s @ [b, e]) (length s) (Suc (length s)) [] = Some y \<and>
             values_seen y = z \<and>
             (\<forall>xs st. y = Inr (xs, st) \<longrightarrow> (\<exists>it'. st = s @ [it', e]))"
proof -
  let ?s = "s @ [b, e]"
  have "length s < length ?s \<and> Suc (length s) < length ?s \<and> length s \<noteq> Suc (length s) \<and>
        ?s ! length s = b \<and> ?s ! Suc (length s) = e"
    by (simp add: nth_append)
  with for_loop_at_total [OF l] obtain y where
    y: "for_loop_at ?s (length s) (Suc (length s)) [] = Some y" "values_seen y = z"
       "\<forall>xs st. y = Inr (xs, st) \<longrightarrow> (\<exists>it'. st = ?s[length s := it'])"
    by blast
  have "?s[length s := it'] = s @ [it', e]" for it' by simp
  with y show ?thesis by auto
qed

lemma range_for_at_result:
  assumes b: "begin_at r < length s" and e: "end_at r < length s"
    and l: "for_loop (s ! begin_at r) (s ! end_at r) [] = Some (Inr xs)"
  shows "\<exists>it'. range_for_at s r = Some (Inr (xs, s @ [it', s ! end_at r]))"
proof -
  from for_loop_at_copies [OF l, of s] obtain y where
    y: "for_loop_at (s @ [s ! begin_at r, s ! end_at r]) (length s) (Suc (length s)) [] = Some y"
       "values_seen y = Inr xs"
       "\<forall>xs st. y = Inr (xs, st) \<longrightarrow> (\<exists>it'. st = s @ [it', s ! end_at r])"
    by blast
  from y(2) obtain st where "y = Inr (xs, st)" by (cases y rule: values_seen.cases) auto
  with y(3) obtain it' where "y = Inr (xs, s @ [it', s ! end_at r])" by blast
  with y(1) show ?thesis using b e by (auto simp: range_for_at_unfold)
qed

text \<open>
  C6: a range-based \<open>for\<close> over a range held in a variable advances a copy of its
  \<open>begin\<close> iterator: in the store the loop leaves, the range's \<open>m_Begin\<close> and \<open>m_End\<close>
  are what they were, and a second loop over the same variable sees the same values. The
  values are those of the loop over the iterators' values. \<open>range(5)\<close> held in a variable
  produces the five values 0, 1, 2, 3, 4 on the first and on the second iteration.
\<close>
theorem range_restartable:
  "(begin_at r < length s \<and> end_at r < length s \<longrightarrow>
      map_option (values_seen) (range_for_at s r) =
        for_loop (s ! begin_at r) (s ! end_at r) []) \<and>
   (range_for_at s r = Some (Inr (xs, s')) \<longrightarrow>
      s' ! begin_at r = s ! begin_at r \<and> s' ! end_at r = s ! end_at r \<and>
      (\<exists>s''. range_for_at s' r = Some (Inr (xs, s'')))) \<and>
   range1 (Val int32_t 5) =
     Inr (iterator_range (integer_iterator int32_t 0) (integer_iterator int32_t 5)) \<and>
   declare_range [] (iterator_range (integer_iterator int32_t 0) (integer_iterator int32_t 5)) =
     ([integer_iterator int32_t 0, integer_iterator int32_t 5], range_variable 0 1) \<and>
   range_for_at [integer_iterator int32_t 0, integer_iterator int32_t 5] (range_variable 0 1) =
     Some (Inr ([Val int32_t 0, Val int32_t 1, Val int32_t 2, Val int32_t 3, Val int32_t 4],
                [integer_iterator int32_t 0, integer_iterator int32_t 5,
                 integer_iterator int32_t 5, integer_iterator int32_t 5])) \<and>
   range_for_at [integer_iterator int32_t 0, integer_iterator int32_t 5,
                 integer_iterator int32_t 5, integer_iterator int32_t 5] (range_variable 0 1) =
     Some (Inr ([Val int32_t 0, Val int32_t 1, Val int32_t 2, Val int32_t 3, Val int32_t 4],
                [integer_iterator int32_t 0, integer_iterator int32_t 5,
                 integer_iterator int32_t 5, integer_iterator int32_t 5,
                 integer_iterator int32_t 5, integer_iterator int32_t 5]))"
proof -
  have 1: "map_option (values_seen) (range_for_at s r) =
             for_loop (s ! begin_at r) (s ! end_at r) []"
    if b: "begin_at r < length s" and e: "end_at r < length s"
  proof -
    let ?s = "s @ [s ! begin_at r, s ! end_at r]"
    have u: "range_for_at s r = for_loop_at ?s (length s) (Suc (length s)) []"
      using b e by (rule range_for_at_unfold)
    have n: "?s ! length s = s ! begin_at r" "?s ! Suc (length s) = s ! end_at r"
      by (simp_all add: nth_append)
    show ?thesis
    proof (cases "for_loop_at ?s (length s) (Suc (length s)) []")
      case (Some y)
      from for_loop_at_values [OF Some] n
      have "for_loop (s ! begin_at r) (s ! end_at r) [] = Some (values_seen y)" by simp
      with Some u show ?thesis by simp
    next
      case None
      have "for_loop (s ! begin_at r) (s ! end_at r) [] = None"
      proof (cases "for_loop (s ! begin_at r) (s ! end_at r) []")
        case (Some z)
        from for_loop_at_copies [OF Some, of s]
        have "\<exists>y. for_loop_at ?s (length s) (Suc (length s)) [] = Some y" by blast
        with None show ?thesis by simp
      qed simp
      with None u show ?thesis by simp
    qed
  qed
  have 2: "s' ! begin_at r = s ! begin_at r \<and> s' ! end_at r = s ! end_at r \<and>
           (\<exists>s''. range_for_at s' r = Some (Inr (xs, s'')))"
    if a: "range_for_at s r = Some (Inr (xs, s'))"
  proof -
    have v: "begin_at r < length s \<and> end_at r < length s"
      using a by (auto simp: range_for_at_def split: if_splits)
    then have b: "begin_at r < length s" and e: "end_at r < length s" by simp_all
    from 1 [OF b e] a have l: "for_loop (s ! begin_at r) (s ! end_at r) [] = Some (Inr xs)"
      by simp
    from range_for_at_result [OF b e l] a obtain it' where
      s': "s' = s @ [it', s ! end_at r]" by auto
    have keep: "s' ! begin_at r = s ! begin_at r" "s' ! end_at r = s ! end_at r"
      using b e by (simp_all add: s' nth_append)
    have b': "begin_at r < length s'" and e': "end_at r < length s'"
      using b e by (simp_all add: s')
    from range_for_at_result [OF b' e'] l keep
    have "\<exists>s''. range_for_at s' r = Some (Inr (xs, s''))" by auto
    with keep show ?thesis by simp
  qed
  have 3: "range1 (Val int32_t 5) =
     Inr (iterator_range (integer_iterator int32_t 0) (integer_iterator int32_t 5))"
    by code_simp
  have 4: "declare_range [] (iterator_range (integer_iterator int32_t 0) (integer_iterator int32_t 5)) =
     ([integer_iterator int32_t 0, integer_iterator int32_t 5], range_variable 0 1)"
    by (simp add: declare_range_def)
  have 5: "range_for_at [integer_iterator int32_t 0, integer_iterator int32_t 5] (range_variable 0 1) =
     Some (Inr ([Val int32_t 0, Val int32_t 1, Val int32_t 2, Val int32_t 3, Val int32_t 4],
                [integer_iterator int32_t 0, integer_iterator int32_t 5,
                 integer_iterator int32_t 5, integer_iterator int32_t 5]))"
    by code_simp
  have 6: "range_for_at [integer_iterator int32_t 0, integer_iterator int32_t 5,
                 integer_iterator int32_t 5, integer_iterator int32_t 5] (range_variable 0 1) =
     Some (Inr ([Val int32_t 0, Val int32_t 1, Val int32_t 2, Val int32_t 3, Val int32_t 4],
                [integer_iterator int32_t 0, integer_iterator int32_t 5,
                 integer_iterator int32_t 5, integer_iterator int32_t 5,
                 integer_iterator int32_t 5, integer_iterator int32_t 5]))"
    by code_simp
  show ?thesis
  proof (intro conjI impI)
    show "map_option values_seen (range_for_at s r) = for_loop (s ! begin_at r) (s ! end_at r) []"
      if "begin_at r < length s \<and> end_at r < length s"
      using that 1 by simp
    show "s' ! begin_at r = s ! begin_at r" "s' ! end_at r = s ! end_at r"
      "\<exists>s''. range_for_at s' r = Some (Inr (xs, s''))"
      if "range_for_at s r = Some (Inr (xs, s'))"
      using 2 [OF that] by simp_all
  qed (rule 3 4 5 6)+
qed

text \<open>
  Were the loop to advance the range's own \<open>m_Begin\<close> instead of a copy, it would leave
  the range empty.
\<close>

lemma loop_on_members_consumes:
  "for_loop_at [integer_iterator int32_t 0, integer_iterator int32_t 5] 0 1 [] =
     Some (Inr ([Val int32_t 0, Val int32_t 1, Val int32_t 2, Val int32_t 3, Val int32_t 4],
                [integer_iterator int32_t 5, integer_iterator int32_t 5])) \<and>
   range_for_at [integer_iterator int32_t 5, integer_iterator int32_t 5] (range_variable 0 1) =
     Some (Inr ([], [integer_iterator int32_t 5, integer_iterator int32_t 5,
                     integer_iterator int32_t 5, integer_iterator int32_t 5]))"
  by code_simp

theorem range_restartable_witness:
  "range_for_at [integer_iterator int32_t 0, integer_iterator int32_t 5] (range_variable 0 1) =
     Some (Inr ([Val int32_t 0, Val int32_t 1, Val int32_t 2, Val int32_t 3, Val int32_t 4],
                [integer_iterator int32_t 0, integer_iterator int32_t 5,
                 integer_iterator int32_t 5, integer_iterator int32_t 5])) \<and>
   (\<exists>s''. range_for_at [integer_iterator int32_t 0, integer_iterator int32_t 5,
                        integer_iterator int32_t 5, integer_iterator int32_t 5] (range_variable 0 1) =
      Some (Inr ([Val int32_t 0, Val int32_t 1, Val int32_t 2, Val int32_t 3, Val int32_t 4], s'')))"
proof -
  let ?s = "[integer_iterator int32_t 0, integer_iterator int32_t 5]"
  let ?xs = "[Val int32_t 0, Val int32_t 1, Val int32_t 2, Val int32_t 3, Val int32_t 4]"
  let ?s' = "[integer_iterator int32_t 0, integer_iterator int32_t 5,
              integer_iterator int32_t 5, integer_iterator int32_t 5]"
  note t = range_restartable [of "range_variable 0 1" ?s ?xs ?s']
  have a: "range_for_at ?s (range_variable 0 1) = Some (Inr (?xs, ?s'))"
    by (rule t [THEN conjunct2, THEN conjunct2, THEN conjunct2, THEN conjunct2, THEN conjunct1])
  from t [THEN conjunct2, THEN conjunct1, rule_format, OF a]
  have "\<exists>s''. range_for_at ?s' (range_variable 0 1) = Some (Inr (?xs, s''))"
    by (rule conjunct2 [THEN conjunct2])
  with a show ?thesis by (rule conjI)
qed




section \<open>The claims about sgn, as_signed and as_unsigned\<close>

text \<open>
  C8: \<open>sgn(val)\<close> is 1 when \<open>val > 0\<close>, -1 when \<open>val < 0\<close>, and 0 when \<open>val == 0\<close>.
\<close>
theorem sgn_values:
  "(0 < val \<longrightarrow> sgn_cpp val = 1) \<and> (val < 0 \<longrightarrow> sgn_cpp val = -1) \<and> (val = 0 \<longrightarrow> sgn_cpp val = 0)"
  by (auto simp: sgn_cpp_def)

theorem sgn_values_witness:
  "(0::int) < 5 \<and> sgn_cpp (5::int) = 1 \<and> (-3::int) < 0 \<and> sgn_cpp (-3::int) = -1 \<and> sgn_cpp (0::int) = 0"
  using sgn_values [of "5::int"] sgn_values [of "-3::int"] sgn_values [of "0::int"] by simp

lemma bits_make_signed: "bits (make_signed_t T) = bits T"
  by (cases T) (simp_all add: bits_def)

lemma bits_make_unsigned: "bits (make_unsigned_t T) = bits T"
  by (cases T) (simp_all add: bits_def)

text \<open>
  C9: \<open>as_unsigned(as_signed(u)) == u\<close> for every value \<open>u\<close> of an unsigned type and
  \<open>as_signed(as_unsigned(s)) == s\<close> for every value \<open>s\<close> of a signed type; both functions
  keep the width of the type and the value's residue modulo \<open>2 ^ w\<close>, \<open>w\<close> being that width.
\<close>
theorem as_signed_as_unsigned_inverse:
  "(in_range (Unsigned r) u \<longrightarrow>
      as_unsigned (as_signed (Val (Unsigned r) u)) = Val (Unsigned r) u) \<and>
   (in_range (Signed r) s \<longrightarrow>
      as_signed (as_unsigned (Val (Signed r) s)) = Val (Signed r) s) \<and>
   bits (type_of (as_signed x)) = bits (type_of x) \<and>
   bits (type_of (as_unsigned x)) = bits (type_of x) \<and>
   value_of (as_signed x) mod 2 ^ bits (type_of x) = value_of x mod 2 ^ bits (type_of x) \<and>
   value_of (as_unsigned x) mod 2 ^ bits (type_of x) = value_of x mod 2 ^ bits (type_of x)"
proof -
  have b: "bits (Signed r) = bits (Unsigned r)" by (simp add: bits_def)
  have 1: "convert (Unsigned r) (convert (Signed r) u) = u" if "in_range (Unsigned r) u"
    using that convert_mod [of "Signed r" u] by (intro convert_eqI) (simp_all add: b)
  have 2: "convert (Signed r) (convert (Unsigned r) s) = s" if "in_range (Signed r) s"
    using that convert_mod [of "Unsigned r" s] by (intro convert_eqI) (simp_all add: b)
  have 3: "value_of (as_signed x) mod 2 ^ bits (type_of x) = value_of x mod 2 ^ bits (type_of x)"
    using convert_mod [of "make_signed_t (type_of x)" "value_of x"]
    by (simp add: as_signed_def bits_make_signed)
  have 4: "value_of (as_unsigned x) mod 2 ^ bits (type_of x) = value_of x mod 2 ^ bits (type_of x)"
    using convert_mod [of "make_unsigned_t (type_of x)" "value_of x"]
    by (simp add: as_unsigned_def bits_make_unsigned)
  show ?thesis
    using 1 2 3 4 by (simp add: as_signed_def as_unsigned_def bits_make_signed bits_make_unsigned)
qed

theorem as_signed_as_unsigned_inverse_witness:
  "in_range uint8_t 200 \<and> as_unsigned (as_signed (Val uint8_t 200)) = Val uint8_t 200 \<and>
   as_signed (Val uint8_t 200) = Val int8_t (- 56) \<and>
   in_range int8_t (- 56) \<and> as_signed (as_unsigned (Val int8_t (- 56))) = Val int8_t (- 56)"
  using as_signed_as_unsigned_inverse [of char_rank 200 "- 56"]
  by (simp add: in_range_def min_of_def max_of_def bits_def as_signed_def convert_def)


section \<open>The claim about remove_if\<close>

lemma remove_if_loop_correct:
  "it \<le> length c \<Longrightarrow>
   remove_if_loop pred c it vis =
     Some (take it c @ filter (\<lambda>x. \<not> pred x) (drop it c), vis @ drop it c)"
proof (induction "length c - it" arbitrary: c it vis rule: less_induct)
  case less
  show ?case
  proof (cases "it = length c")
    case True
    then show ?thesis
      by (subst remove_if_loop.simps) (simp add: end_of_def)
  next
    case False
    with less.prems have lt: "it < length c" by simp
    then have d: "drop it c = c ! it # drop (Suc it) c"
      by (simp add: Cons_nth_drop_Suc)
    show ?thesis
    proof (cases "pred (c ! it)")
      case True
      let ?c' = "take it c @ drop (Suc it) c"
      have len: "length ?c' = length c - 1" using lt by simp
      have "remove_if_loop pred ?c' it (vis @ [c ! it]) =
              Some (take it ?c' @ filter (\<lambda>x. \<not> pred x) (drop it ?c'), (vis @ [c ! it]) @ drop it ?c')"
        using lt len by (intro less.hyps) simp_all
      moreover have "take it ?c' = take it c" "drop it ?c' = drop (Suc it) c"
        using lt by simp_all
      ultimately show ?thesis
        using True False d
        by (subst remove_if_loop.simps) (simp add: end_of_def erase_def)
    next
      case np: False
      have "remove_if_loop pred c (Suc it) (vis @ [c ! it]) =
              Some (take (Suc it) c @ filter (\<lambda>x. \<not> pred x) (drop (Suc it) c),
                    (vis @ [c ! it]) @ drop (Suc it) c)"
        using lt by (intro less.hyps) simp_all
      then show ?thesis
        using np False d lt
        by (subst remove_if_loop.simps) (simp add: end_of_def take_Suc_conv_app_nth)
    qed
  qed
qed

text \<open>
  C10: after \<open>remove_if(container, pred)\<close> the container holds exactly the elements of
  the original container on which \<open>pred\<close> is false, in their original order; \<open>pred\<close>
  has been called on every element of the original container exactly once, in the
  container's order. The loop ends for every container and every predicate.
\<close>
theorem remove_if_filter:
  "remove_if container pred = Some (filter (\<lambda>x. \<not> pred x) container, container)"
  by (simp add: remove_if_def begin_of_def remove_if_loop_correct)

theorem remove_if_filter_witness:
  "remove_if [0, 1, 2, 3, 4, 5 :: int] (\<lambda>i. i mod 2 = 1) = Some ([0, 2, 4], [0, 1, 2, 3, 4, 5])"
  using remove_if_filter [of "[0, 1, 2, 3, 4, 5 :: int]" "\<lambda>i. i mod 2 = 1"] by simp

section \<open>The claims about the tuple shim\<close>

lemma tuples_length_elements: "tuples_length t = int (length (elements t))"
  by (induction t) simp_all

text \<open>
  C3: for every \<open>cons<T, Tail>\<close>, \<open>std::tuple_size\<close> is \<open>boost::tuples::length\<close> of the
  type, which is the number of elements of the chain.
\<close>
theorem tuple_size_is_length:
  "tuple_size (cons T Tail) = Some (tuples_length (cons T Tail)) \<and>
   tuples_length (cons T Tail) = int (length (elements (cons T Tail)))"
  by (simp add: tuples_length_elements)

theorem tuple_size_is_length_witness:
  "tuple_size (cons ''int'' (cons ''double'' (cons ''char'' null_type))) = Some 3 \<and>
   tuples_length (cons ''int'' (cons ''double'' (cons ''char'' null_type))) = 3"
  using tuple_size_is_length [of "''int''" "cons ''double'' (cons ''char'' null_type)"] by simp

lemma tuples_element_nth:
  "i < length (elements t) \<Longrightarrow> tuples_element i t = Some (elements t ! i)"
  by (induction i t rule: tuples_element.induct) simp_all

text \<open>
  C4: for a tuple \<open>t\<close> of arity \<open>n\<close> and an index \<open>i < n\<close>, \<open>std::get<i>(t)\<close> on a
  mutable and on a const lvalue is what \<open>boost::get<i>(t)\<close> is: an lvalue reference to
  the element at \<open>i\<close>, const for a const tuple.
\<close>
theorem get_lvalue_delegates:
  assumes "int i < tuples_length t"
  shows "get_lvalue i t = boost_get i \<lparr>category = lvalue, is_const = False, referent = t\<rparr> \<and>
         get_const_lvalue i t = boost_get i \<lparr>category = lvalue, is_const = True, referent = t\<rparr> \<and>
         get_lvalue i t = Inr \<lparr>category = lvalue, is_const = False, referent = elements t ! i\<rparr> \<and>
         get_const_lvalue i t = Inr \<lparr>category = lvalue, is_const = True, referent = elements t ! i\<rparr>"
proof -
  from assms have "i < length (elements t)" by (simp add: tuples_length_elements)
  then have "tuples_element i t = Some (elements t ! i)" by (rule tuples_element_nth)
  then show ?thesis
    by (simp add: get_lvalue_def get_const_lvalue_def boost_get_def return_as_def)
qed

theorem get_lvalue_delegates_witness:
  "int 1 < tuples_length (cons (10::int) (cons 20 (cons 30 null_type))) \<and>
   get_lvalue 1 (cons (10::int) (cons 20 (cons 30 null_type))) =
     Inr \<lparr>category = lvalue, is_const = False, referent = 20\<rparr> \<and>
   get_const_lvalue 1 (cons (10::int) (cons 20 (cons 30 null_type))) =
     Inr \<lparr>category = lvalue, is_const = True, referent = 20\<rparr>"
  using get_lvalue_delegates [of 1 "cons (10::int) (cons 20 (cons 30 null_type))"]
  by (simp add: boost_get_def)

text \<open>
  C1: the two overloads of \<open>std::get<N>\<close> that take an rvalue reference call
  \<open>std::forward(t)\<close> without naming its template argument, which cannot be deduced: for
  every index and every tuple they do not compile, and so return no reference of any
  category.
\<close>
theorem get_rvalue_does_not_compile:
  "get_rvalue N t = Inl template_argument_deduction_failed \<and>
   get_const_rvalue N t = Inl template_argument_deduction_failed"
  by (simp add: get_rvalue_def get_const_rvalue_def)

end
